theory Spec2Isabelle
  imports Main
begin

section \<open>Python values used by \<open>make/modbus_rtu_rc.py\<close>\<close>

text \<open>
  Exceptions are values.  \<open>ParsingException\<close> is the generator's own exception class and
  carries its message; the other constructors are the built-in exceptions that the code
  can raise without catching them.
\<close>

datatype py_exc =
    ParsingException string
  | ValueError
  | AttributeError
  | IndexError
  | KeyError
  | AssertionError

text \<open>Python's \<open>str(n)\<close> for an integer: decimal digits, a leading minus sign.\<close>

definition digit_char :: "nat \<Rightarrow> char" where
  "digit_char d = ''0123456789'' ! d"

fun str_nat :: "nat \<Rightarrow> string" where
  "str_nat n = (if n < 10 then [digit_char n] else str_nat (n div 10) @ [digit_char (n mod 10)])"

declare str_nat.simps [simp del]

definition str_int :: "int \<Rightarrow> string" where
  "str_int i = (if i < 0 then ''-'' @ str_nat (nat (- i)) else str_nat (nat i))"

text \<open>\<open>s.startswith(p)\<close> and \<open>s.upper()\<close> (on the 8-bit characters of the model).\<close>

definition startswith :: "string \<Rightarrow> string \<Rightarrow> bool" where
  "startswith s p = (take (length p) s = p)"

definition upper_char :: "char \<Rightarrow> char" where
  "upper_char c =
     (let n = (of_char c :: nat) in if 97 \<le> n \<and> n \<le> 122 then char_of (n - 32) else c)"

definition upper :: "string \<Rightarrow> string" where
  "upper s = map upper_char s"

text \<open>\<open>sep.join(xs)\<close>.\<close>

fun join :: "string \<Rightarrow> string list \<Rightarrow> string" where
  "join sep [] = []"
| "join sep [x] = x"
| "join sep (x # y # ys) = x @ sep @ join sep (y # ys)"

text \<open>
  A dictionary that keeps insertion order is an association list: \<open>d[k] = v\<close> replaces the
  value of a key that is present and appends a new key at the end; \<open>map_of\<close> looks a key up.
\<close>

fun dict_set :: "('k \<times> 'v) list \<Rightarrow> 'k \<Rightarrow> 'v \<Rightarrow> ('k \<times> 'v) list" where
  "dict_set [] k v = [(k, v)]"
| "dict_set ((k', v') # d) k v = (if k' = k then (k, v) # d else (k', v') # dict_set d k v)"

definition dict_has :: "('k \<times> 'v) list \<Rightarrow> 'k \<Rightarrow> bool" where
  "dict_has d k = (k \<in> set (map fst d))"

text \<open>Character classes of the regular expressions.\<close>

definition is_digit :: "char \<Rightarrow> bool" where
  "is_digit c = (let n = (of_char c :: nat) in 48 \<le> n \<and> n \<le> 57)"

definition is_hex :: "char \<Rightarrow> bool" where
  "is_hex c = (let n = (of_char c :: nat) in
     (48 \<le> n \<and> n \<le> 57) \<or> (97 \<le> n \<and> n \<le> 102) \<or> (65 \<le> n \<and> n \<le> 70))"

definition is_alpha_us :: "char \<Rightarrow> bool" where
  "is_alpha_us c = (let n = (of_char c :: nat) in
     (97 \<le> n \<and> n \<le> 122) \<or> (65 \<le> n \<and> n \<le> 90) \<or> n = 95)"

definition newline :: string where
  "newline = [char_of (10::nat)]"

definition dquote :: string where
  "dquote = [char_of (34::nat)]"

definition squote :: string where
  "squote = [char_of (39::nat)]"

section \<open>The matcher model\<close>

text \<open>
  The concrete matcher classes.  Each one inherits its width from \<open>_8bits\<close>, \<open>_16bits\<close> or
  \<open>_32bits\<close> and its range check from \<open>UnsignedMatcher\<close>, \<open>SignedMatcher\<close> or, for
  \<open>f32\<close>, from its own \<open>check\<close>.
\<close>

datatype mclass = u8 | u16 | u32 | s8 | s16 | s32 | f32 | Crc | RuntimeDeviceAddress

fun bits :: "mclass \<Rightarrow> nat" where
  "bits u8 = 8"
| "bits u16 = 16"
| "bits u32 = 32"
| "bits s8 = 8"
| "bits s16 = 16"
| "bits s32 = 32"
| "bits f32 = 32"
| "bits Crc = 16"
| "bits RuntimeDeviceAddress = 8"

definition csize :: "mclass \<Rightarrow> nat" where
  "csize k = bits k div 8"

fun is_unsigned :: "mclass \<Rightarrow> bool" where
  "is_unsigned u8 = True"
| "is_unsigned u16 = True"
| "is_unsigned u32 = True"
| "is_unsigned Crc = True"
| "is_unsigned RuntimeDeviceAddress = True"
| "is_unsigned _ = False"

fun is_signed :: "mclass \<Rightarrow> bool" where
  "is_signed s8 = True"
| "is_signed s16 = True"
| "is_signed s32 = True"
| "is_signed _ = False"

text \<open>
  The \<open>value\<close> attribute of a matcher: \<open>None\<close>, an integer, a \<open>Range\<close> object or a list.
  Float literals are outside the model; on the integers of the model \<open>f32.check\<close> is
  false, as \<open>isinstance(value, float)\<close> is.
\<close>

datatype mvalue = NoneV | IntV int | Range int int | ListV "int list"

datatype vtype = NoneType | IntType | RangeType | ListType

fun type_of :: "mvalue \<Rightarrow> vtype" where
  "type_of NoneV = NoneType"
| "type_of (IntV _) = IntType"
| "type_of (Range _ _) = RangeType"
| "type_of (ListV _) = ListType"

record matcher =
  cls :: mclass
  mvalue :: mvalue
  malias :: "string option"
  mpos :: "nat option"

definition msize :: "matcher \<Rightarrow> nat" where
  "msize m = csize (cls m)"

text \<open>\<open>Matcher.__eq__\<close>: same class, same type of value, equal value.\<close>

definition matcher_eq :: "matcher \<Rightarrow> matcher \<Rightarrow> bool" where
  "matcher_eq self other =
     (if cls self \<noteq> cls other then False
      else if type_of (mvalue self) \<noteq> type_of (mvalue other) then False
      else if mvalue self \<noteq> mvalue other then False
      else True)"

text \<open>The positional arguments a matcher class is called with.\<close>

datatype pyarg = ANone | AInt int | AList "int list"

fun check :: "mclass \<Rightarrow> pyarg \<Rightarrow> bool" where
  "check k (AInt v) =
     (if is_unsigned k then 0 \<le> v \<and> v < 2 ^ bits k
      else if is_signed k then - (2 ^ (bits k - 1)) \<le> v \<and> v < 2 ^ (bits k - 1)
      else False)"
| "check k _ = False"

fun cast :: "mclass \<Rightarrow> pyarg \<Rightarrow> py_exc + int" where
  "cast k (AInt v) = (if check k (AInt v) then Inr v else Inl ValueError)"
| "cast k a = Inl ValueError"

text \<open>
  \<open>Matcher.__init__\<close>.  The elements of a list argument are passed to \<open>check\<close> and the
  result is dropped, so a list is stored unchecked.
\<close>

fun Matcher_init :: "mclass \<Rightarrow> pyarg list \<Rightarrow> string option \<Rightarrow> py_exc + matcher" where
  "Matcher_init k [] al = Inr \<lparr>cls = k, mvalue = NoneV, malias = al, mpos = None\<rparr>"
| "Matcher_init k [ANone] al = Inr \<lparr>cls = k, mvalue = NoneV, malias = al, mpos = None\<rparr>"
| "Matcher_init k [AList l] al = Inr \<lparr>cls = k, mvalue = ListV l, malias = al, mpos = None\<rparr>"
| "Matcher_init k [a] al =
     (case cast k a of Inl e \<Rightarrow> Inl e
      | Inr v \<Rightarrow> Inr \<lparr>cls = k, mvalue = IntV v, malias = al, mpos = None\<rparr>)"
| "Matcher_init k [a, b] al =
     (case cast k a of Inl e \<Rightarrow> Inl e
      | Inr f \<Rightarrow> (case cast k b of Inl e \<Rightarrow> Inl e
          | Inr t \<Rightarrow> Inr \<lparr>cls = k, mvalue = Range f t, malias = al, mpos = None\<rparr>))"
| "Matcher_init k _ al = Inl ValueError"

text \<open>The properties \<open>max\<close> and \<open>min\<close>; \<open>f32\<close> has neither.\<close>

definition vmax :: "mclass \<Rightarrow> py_exc + int" where
  "vmax k = (if is_unsigned k then Inr (2 ^ bits k - 1)
             else if is_signed k then Inr (2 ^ (bits k - 1) - 1)
             else Inl AttributeError)"

definition vmin :: "mclass \<Rightarrow> py_exc + int" where
  "vmin k = (if is_unsigned k then Inr 0
             else if is_signed k then Inr (- (2 ^ (bits k - 1)))
             else Inl AttributeError)"

text \<open>The loop of \<open>Matcher.fits\<close> over a list value.\<close>

fun fits_list :: "mclass \<Rightarrow> int list \<Rightarrow> py_exc + bool" where
  "fits_list k [] = Inr True"
| "fits_list k (t # ts) =
     (case vmin k of Inl e \<Rightarrow> Inl e
      | Inr lo \<Rightarrow>
          if t < lo then Inr False
          else (case vmax k of Inl e \<Rightarrow> Inl e
                | Inr hi \<Rightarrow> if t > hi then Inr False else fits_list k ts))"

text \<open>
  \<open>Matcher.fits(item)\<close>: \<open>item\<close> is a matcher class, instantiated as \<open>item(0)\<close>.
\<close>

definition fits :: "matcher \<Rightarrow> mclass \<Rightarrow> py_exc + bool" where
  "fits self item =
     (case Matcher_init item [AInt 0] None of Inl e \<Rightarrow> Inl e
      | Inr v \<Rightarrow>
          if msize v \<ge> msize self then Inr True
          else (case mvalue self of
              Range f t \<Rightarrow>
                (case vmin (cls v) of Inl e \<Rightarrow> Inl e
                 | Inr lo \<Rightarrow>
                     if lo \<le> f
                     then (case vmax (cls v) of Inl e \<Rightarrow> Inl e | Inr hi \<Rightarrow> Inr (hi \<ge> t))
                     else Inr False)
            | ListV l \<Rightarrow> fits_list (cls v) l
            | _ \<Rightarrow> Inr True))"

text \<open>
  The representable range of a parameter class, for stating properties: the least and
  the greatest value of an integer class.
\<close>

definition lo_of :: "mclass \<Rightarrow> int" where
  "lo_of k = (if is_signed k then - (2 ^ (bits k - 1)) else 0)"

definition hi_of :: "mclass \<Rightarrow> int" where
  "hi_of k = (if is_signed k then 2 ^ (bits k - 1) - 1 else 2 ^ bits k - 1)"

text \<open>\<open>Matcher.__repr__\<close>, with \<open>ctype\<close> from the width class and \<open>Range.__repr__\<close>.\<close>

definition ctype :: "mclass \<Rightarrow> string" where
  "ctype k = (if bits k = 8 then ''uint8_t'' else if bits k = 16 then ''uint16_t'' else ''uint32_t'')"

fun value_repr :: "mvalue \<Rightarrow> string" where
  "value_repr NoneV = ''None''"
| "value_repr (IntV i) = str_int i"
| "value_repr (Range f t) = ''['' @ str_int f @ ''-'' @ str_int t @ '']''"
| "value_repr (ListV l) = ''['' @ join '', '' (map str_int l) @ '']''"

definition matcher_repr :: "matcher \<Rightarrow> string" where
  "matcher_repr m = ctype (cls m) @ ''('' @ value_repr (mvalue m) @ '')''"

section \<open>Commands, prototypes and operations\<close>

text \<open>
  An element of a command tuple is a matcher or a string.  An entry of a callback
  prototype is a matcher class or a pair of a class and a parameter name.
\<close>

datatype item = M matcher | S string

type_synonym command = "item list"

datatype param = P mclass | PN mclass string

type_synonym prototype = "param list"

record Operation =
  op_name :: string
  prototype :: prototype
  chain :: "item list"

text \<open>
  \<open>sum(item.size for item in chain if isinstance(item, Integral))\<close>: every matcher class
  is an \<open>Integral\<close>, a string is not.
\<close>

fun item_size :: "item \<Rightarrow> nat" where
  "item_size (M m) = msize m"
| "item_size (S _) = 0"

definition sum_sizes :: "item list \<Rightarrow> nat" where
  "sum_sizes xs = sum_list (map item_size xs)"

text \<open>The buffer access emitted for a parameter of the given size at an offset.\<close>

definition decoder :: "nat \<Rightarrow> int \<Rightarrow> string option" where
  "decoder param_size offset =
     (if param_size = 1 then Some (''buffer['' @ str_int offset @ '']'')
      else if param_size = 2 then Some (''ntoh('' @ str_int offset @ '')'')
      else if param_size = 4 then Some (''ntohl('' @ str_int offset @ '')'')
      else None)"

text \<open>The class of a prototype entry, with or without a parameter name.\<close>

definition param_class :: "param \<Rightarrow> mclass" where
  "param_class prm = (case prm of P c \<Rightarrow> c | PN c _ \<Rightarrow> c)"

text \<open>
  The loop of \<open>Operation.to_code\<close> over \<open>enumerate(reversed(self.prototype))\<close>: \<open>pos\<close> is
  the loop index, \<open>chn\<close> the local copy of the chain, which loses its last element in
  each round, and \<open>values_str\<close> the list built by \<open>insert(0, ...)\<close>.
\<close>

fun to_code_loop ::
  "string \<Rightarrow> nat \<Rightarrow> nat \<Rightarrow> param list \<Rightarrow> item list \<Rightarrow> string list \<Rightarrow> py_exc + string list"
where
  "to_code_loop nm nargs pos [] chn values_str = Inr values_str"
| "to_code_loop nm nargs pos (prm # rest) chn values_str =
     (let k = param_class prm;
          param_name = (case prm of
              PN _ n \<Rightarrow> squote @ n @ squote
            | P _ \<Rightarrow> ''argument at position '' @ str_int (int nargs - int pos))
      in if chn = [] then Inl IndexError
         else
           let chain_item = last chn;
               chn' = butlast chn;
               offset = int (sum_sizes chn')
           in (case Matcher_init k [AInt 0] None of Inl e \<Rightarrow> Inl e
               | Inr p0 \<Rightarrow>
                   let param_size = msize p0
                   in (case chain_item of
                         S _ \<Rightarrow> Inl AttributeError
                       | M ci \<Rightarrow>
                           (case fits ci k of Inl e \<Rightarrow> Inl e
                            | Inr ok \<Rightarrow>
                                if \<not> ok
                                then Inl (ParsingException
                                  (''Cannot fit '' @ matcher_repr ci @ '' into '' @ param_name @
                                   '' of type '' @ ctype k @ '' in '' @ nm))
                                else
                                  let offset' = offset + (int (msize ci) - int param_size)
                                  in to_code_loop nm nargs (pos + 1) rest chn'
                                       (case decoder param_size offset' of
                                          Some d \<Rightarrow> d # values_str
                                        | None \<Rightarrow> values_str)))))"

definition Operation_to_code :: "Operation \<Rightarrow> py_exc + string" where
  "Operation_to_code self =
     (case to_code_loop (op_name self) (length (prototype self)) 0 (rev (prototype self))
             (chain self) [] of
        Inl e \<Rightarrow> Inl e
      | Inr values_str \<Rightarrow> Inr (op_name self @ ''('' @ join '', '' values_str @ '');''))"

datatype ops = Op Operation | NoOperation

definition ops_to_code :: "ops \<Rightarrow> py_exc + string" where
  "ops_to_code x = (case x of Op y \<Rightarrow> Operation_to_code y | NoOperation \<Rightarrow> Inr ''// Reply is ignored'')"

section \<open>States, transitions and the generator\<close>

text \<open>
  A transition refers to its next state, and the generator to the state it is working
  on, by the index of that state in \<open>self.states\<close>: every state the generator creates is
  appended to that list and none is ever removed, so the index identifies the object.
  A \<open>State\<close> has no operation (\<open>op = None\<close>); an \<open>OperationState\<close> has one.
\<close>

record Transition =
  t_matcher :: matcher
  t_next :: nat
  set_crc :: bool

record State =
  name :: string
  transition :: "Transition list"
  pos :: nat
  smode :: string
  op :: "ops option"

record CodeGenerator =
  states :: "State list"
  callbacks :: "(string \<times> prototype) list"
  max_buf_size :: int
  on_ready_reply_callback :: "string option"
  device_address :: "int option"
  identification :: "(int \<times> string) list"
  slave_id :: int
  mode :: string
  namespace :: string
  conformity_level :: int

text \<open>\<open>State.next(alias)\<close>: an alias that is \<open>None\<close> or empty is replaced by a number.\<close>

definition State_next :: "State \<Rightarrow> string option \<Rightarrow> string" where
  "State_next self al =
     (let a = (case al of
                 None \<Rightarrow> str_nat (length (transition self) + 1)
               | Some x \<Rightarrow> if x = [] then str_nat (length (transition self) + 1) else x)
      in name self @ ''_'' @ a)"

text \<open>\<open>State.has\<close> and \<open>State.get_next_state_of\<close>: the first transition with an equal matcher.\<close>

definition State_has :: "State \<Rightarrow> matcher \<Rightarrow> bool" where
  "State_has self m = (find (\<lambda>t. matcher_eq (t_matcher t) m) (transition self) \<noteq> None)"

definition State_get_next_state_of :: "State \<Rightarrow> matcher \<Rightarrow> py_exc + nat" where
  "State_get_next_state_of self m =
     (case find (\<lambda>t. matcher_eq (t_matcher t) m) (transition self) of
        Some t \<Rightarrow> Inr (t_next t)
      | None \<Rightarrow> Inl AssertionError)"

text \<open>\<open>state.add(transition)\<close> on the state with the given index.\<close>

definition State_add :: "CodeGenerator \<Rightarrow> nat \<Rightarrow> Transition \<Rightarrow> CodeGenerator" where
  "State_add self i tr =
     self\<lparr>states := (states self)
        [i := (states self ! i)\<lparr>transition := transition (states self ! i) @ [tr]\<rparr>]\<rparr>"

text \<open>
  The \<open>while\<close> loop of \<open>new_state\<close>.  It ends because the candidate names are pairwise
  different and \<open>names\<close> is finite.
\<close>

function new_state_loop :: "string \<Rightarrow> string list \<Rightarrow> string \<Rightarrow> nat \<Rightarrow> string" where
  "new_state_loop new_state_name names alt_name count =
     (if alt_name \<in> set names
      then new_state_loop new_state_name names (new_state_name @ ''_'' @ str_nat count) (count + 1)
      else alt_name)"
  by pat_completeness auto
termination
proof -
  have len: "str_nat n \<noteq> []" for n
    by (subst str_nat.simps) simp
  have dig: "(of_char (digit_char a) :: nat) = 48 + a" if "a < 10" for a
  proof -
    from that have "a = 0 \<or> a = 1 \<or> a = 2 \<or> a = 3 \<or> a = 4 \<or> a = 5 \<or> a = 6 \<or> a = 7 \<or> a = 8 \<or> a = 9"
      by presburger
    then show ?thesis by (elim disjE) (simp_all add: digit_char_def)
  qed
  have dig_inj: "a = b" if "a < 10" "b < 10" "digit_char a = digit_char b" for a b
  proof -
    from that(3) have "(of_char (digit_char a) :: nat) = of_char (digit_char b)"
      by (rule arg_cong)
    with dig [OF that(1)] dig [OF that(2)] show ?thesis by linarith
  qed
  have small: "str_nat n = [digit_char n]" if "n < 10" for n
    using that by (subst str_nat.simps) simp
  have big: "str_nat n = str_nat (n div 10) @ [digit_char (n mod 10)]" if "\<not> n < 10" for n
    using that by (subst str_nat.simps) simp
  have inj: "n = m" if "str_nat n = str_nat m" for n m
    using that
  proof (induction n arbitrary: m rule: less_induct)
    case (less n)
    show ?case
    proof (cases "n < 10")
      case n: True
      show ?thesis
      proof (cases "m < 10")
        case True
        with n less.prems show ?thesis by (simp add: small dig_inj)
      next
        case False
        with n less.prems len [of "m div 10"] show ?thesis by (simp add: small big)
      qed
    next
      case n: False
      show ?thesis
      proof (cases "m < 10")
        case True
        with n less.prems len [of "n div 10"] show ?thesis by (simp add: small big)
      next
        case False
        with n less.prems have eq: "str_nat (n div 10) = str_nat (m div 10)"
          and d: "digit_char (n mod 10) = digit_char (m mod 10)"
          by (simp_all add: big)
        from n have "n div 10 < n" by simp
        from less.IH [OF this eq] have "n div 10 = m div 10" .
        moreover from d have "n mod 10 = m mod 10" by (simp add: dig_inj)
        ultimately show ?thesis by (metis div_mult_mod_eq)
      qed
    qed
  qed
  have fin: "finite {c. count \<le> c \<and> b @ ''_'' @ str_nat c \<in> set names}" for count b names
  proof -
    have "inj (\<lambda>c. b @ ''_'' @ str_nat c)" by (auto simp: inj_def dest: inj)
    then have "finite ((\<lambda>c. b @ ''_'' @ str_nat c) -` set names)"
      by (intro finite_vimageI) simp_all
    moreover have "{c. count \<le> c \<and> b @ ''_'' @ str_nat c \<in> set names}
        \<subseteq> (\<lambda>c. b @ ''_'' @ str_nat c) -` set names" by auto
    ultimately show ?thesis by (rule rev_finite_subset)
  qed
  show ?thesis
  proof (relation "measure (\<lambda>(b, names, alt, count).
      card {c. count \<le> c \<and> b @ ''_'' @ str_nat c \<in> set names} + (if alt \<in> set names then 1 else 0))")
    show "wf (measure (\<lambda>(b, names, alt, count).
      card {c. count \<le> c \<and> b @ ''_'' @ str_nat c \<in> set names} + (if alt \<in> set names then 1 else 0)))"
      by simp
  next
    fix new_state_name :: string and names :: "string list" and alt_name :: string and count :: nat
    assume "alt_name \<in> set names"
    let ?A = "{c. count \<le> c \<and> new_state_name @ ''_'' @ str_nat c \<in> set names}"
    let ?B = "{c. count + 1 \<le> c \<and> new_state_name @ ''_'' @ str_nat c \<in> set names}"
    have "card ?B + (if new_state_name @ ''_'' @ str_nat count \<in> set names then 1 else 0) \<le> card ?A"
    proof (cases "new_state_name @ ''_'' @ str_nat count \<in> set names")
      case True
      then have "?A = insert count ?B" by (auto simp: le_eq_less_or_eq)
      moreover have "count \<notin> ?B" by simp
      ultimately have "card ?A = Suc (card ?B)" using fin [of "count + 1" new_state_name names]
        by simp
      with True show ?thesis by simp
    next
      case False
      then have "?A = ?B" by (auto simp: le_eq_less_or_eq Suc_le_eq)
      with False show ?thesis by simp
    qed
    with \<open>alt_name \<in> set names\<close>
    show "((new_state_name, names, new_state_name @ ''_'' @ str_nat count, count + 1),
           new_state_name, names, alt_name, count)
          \<in> measure (\<lambda>(b, names, alt, count).
      card {c. count \<le> c \<and> b @ ''_'' @ str_nat c \<in> set names} + (if alt \<in> set names then 1 else 0))"
      by simp
  qed
qed

text \<open>
  \<open>CodeGenerator.new_state\<close>: the set \<open>names\<close> and the loop give the name, and the result is
  the generator with the new state, and the new state's index.
\<close>

definition unique_name :: "CodeGenerator \<Rightarrow> string \<Rightarrow> string" where
  "unique_name self new_state_name =
     (let names = filter (\<lambda>n. startswith n new_state_name) (map name (states self))
      in new_state_loop new_state_name names new_state_name 1)"

definition new_state :: "CodeGenerator \<Rightarrow> string \<Rightarrow> nat \<Rightarrow> CodeGenerator \<times> nat" where
  "new_state self new_state_name p =
     (let alt_name = unique_name self new_state_name
      in (self\<lparr>states := states self @
             [\<lparr>name = alt_name, transition = [], pos = p, smode = mode self, op = None\<rparr>]\<rparr>,
          length (states self)))"

definition crc_matcher :: matcher where
  "crc_matcher = \<lparr>cls = Crc, mvalue = NoneV, malias = None, mpos = None\<rparr>"

text \<open>
  The two statements \<open>next_state = self.new_state(nm, state.pos + matcher.size)\<close> and
  \<open>state.add(Transition(matcher, next_state))\<close>, which both branches of the loop below
  execute; \<open>crc\<close> is the flag \<open>set_crc\<close> of the transition.
\<close>

definition add_state_transition ::
  "CodeGenerator \<Rightarrow> nat \<Rightarrow> string \<Rightarrow> matcher \<Rightarrow> bool \<Rightarrow> CodeGenerator \<times> nat"
where
  "add_state_transition self state nm matcher crc =
     (let (self1, next_state) = new_state self nm (pos (states self ! state) + msize matcher)
      in (State_add self1 state \<lparr>t_matcher = matcher, t_next = next_state, set_crc = crc\<rparr>,
          next_state))"

text \<open>
  The operation of a terminal state: \<open>Operation(command_name, self.callbacks[command_name],
  [address_matcher] + list(cmd[:-1]))\<close>, or \<open>NoOperation()\<close> for \<open>NOTHING\<close>.
\<close>

definition make_operation ::
  "CodeGenerator \<Rightarrow> string \<Rightarrow> matcher \<Rightarrow> item list \<Rightarrow> py_exc + ops"
where
  "make_operation self command_name address_matcher cmd =
     (if command_name \<noteq> ''NOTHING''
      then (case map_of (callbacks self) command_name of
              None \<Rightarrow> Inl KeyError
            | Some proto \<Rightarrow>
                Inr (Op \<lparr>op_name = command_name, prototype = proto,
                         chain = M address_matcher # butlast cmd\<rparr>))
      else Inr NoOperation)"

text \<open>
  The terminal state: \<open>OperationState(op, "RDY_TO_CALL__" + command_name.upper(), 0)\<close> is
  appended to \<open>self.states\<close> as it is, and the state \<open>crc\<close> gets the transition
  \<open>Transition(Crc(None), next_state)\<close>.
\<close>

definition add_operation_state :: "CodeGenerator \<Rightarrow> nat \<Rightarrow> string \<Rightarrow> ops \<Rightarrow> CodeGenerator" where
  "add_operation_state self crc command_name operation =
     (let next_state = length (states self);
          self1 = self\<lparr>states := states self @
            [\<lparr>name = ''RDY_TO_CALL__'' @ upper command_name, transition = [], pos = 0,
              smode = ''slave'', op = Some operation\<rparr>]\<rparr>
      in State_add self1 crc \<lparr>t_matcher = crc_matcher, t_next = next_state, set_crc = False\<rparr>)"

text \<open>
  The \<open>for\<close> loop of \<open>process_sequence\<close>.  \<open>seen\<close> holds the elements of the tuple already
  visited and the last argument those still to come, so that \<open>cmd[index+1]\<close> is the
  second element of the latter; \<open>p\<close> is the local \<open>pos\<close>.  Assigning \<open>matcher.pos\<close> changes
  the matcher object, which the tuple, the new transition and the chain of the operation
  share: the loop returns the tuple with the positions assigned, also when it raises,
  since the assignments made until then stay.
\<close>

fun process_sequence_loop ::
  "CodeGenerator \<Rightarrow> matcher \<Rightarrow> nat \<Rightarrow> nat \<Rightarrow> item list \<Rightarrow> item list
     \<Rightarrow> (py_exc \<times> item list) + (CodeGenerator \<times> item list)"
where
  "process_sequence_loop self address_matcher state p seen [] = Inr (self, seen)"
| "process_sequence_loop self address_matcher state p seen (S s # rest) =
     Inl (AttributeError, seen @ S s # rest)"
| "process_sequence_loop self address_matcher state p seen (M m # rest) =
     (let p' = p + msize m;
          matcher = m\<lparr>mpos := Some p'\<rparr>;
          cmd = seen @ M matcher # rest;
          st = states self ! state
      in if State_has st matcher
         then (case State_get_next_state_of st matcher of
                 Inl e \<Rightarrow> Inl (e, cmd)
               | Inr nxt \<Rightarrow>
                   process_sequence_loop self address_matcher nxt p' (seen @ [M matcher]) rest)
         else (case rest of
             [] \<Rightarrow> Inl (IndexError, cmd)
           | S _ # _ \<Rightarrow>
               (case last cmd of
                  M _ \<Rightarrow> Inl (AttributeError, cmd)
                | S command_name \<Rightarrow>
                    let (self2, crc) = add_state_transition self state
                          (State_next st (Some (''_'' @ upper command_name @ ''__CRC'')))
                          matcher True
                    in (case make_operation self2 command_name address_matcher cmd of
                          Inl e \<Rightarrow> Inl (e, cmd)
                        | Inr operation \<Rightarrow>
                            Inr (add_operation_state self2 crc command_name operation, cmd)))
           | M _ # _ \<Rightarrow>
               let (self2, nxt) = add_state_transition self state
                     (State_next st (malias matcher)) matcher False
               in process_sequence_loop self2 address_matcher nxt p' (seen @ [M matcher]) rest))"

text \<open>
  \<open>CodeGenerator.process_sequence\<close>.  \<open>cmd += ("NOTHING",)\<close> binds a new tuple to the local
  name; the tuple of the tree keeps its length, and the second component of the result
  is that tuple after the call, whether the call returns or raises.
\<close>

definition process_sequence ::
  "CodeGenerator \<Rightarrow> matcher \<Rightarrow> nat \<Rightarrow> command
     \<Rightarrow> (py_exc \<times> command) + (CodeGenerator \<times> command)"
where
  "process_sequence self address_matcher state cmd =
     (if cmd = [] then Inl (IndexError, cmd)
      else (case last cmd of
          S callback \<Rightarrow>
            if \<not> dict_has (callbacks self) callback
            then Inl (ParsingException
              (''Unknown callback '' @ callback @ '': Callback must be declared first''), cmd)
            else process_sequence_loop self address_matcher state 1 [] cmd
        | M _ \<Rightarrow>
            (case process_sequence_loop self address_matcher state 1 [] (cmd @ [S ''NOTHING'']) of
               Inl (e, cmd') \<Rightarrow> Inl (e, take (length cmd) cmd')
             | Inr (self', cmd') \<Rightarrow> Inr (self', take (length cmd) cmd'))))"

text \<open>
  \<open>for command in value: self.process_sequence(address_matcher, device_state, command)\<close>,
  with the contents of the list \<open>value\<close> after the loop, or at the moment it raises.
\<close>

fun process_commands ::
  "CodeGenerator \<Rightarrow> matcher \<Rightarrow> nat \<Rightarrow> command list
     \<Rightarrow> (py_exc \<times> command list) + (CodeGenerator \<times> command list)"
where
  "process_commands self address_matcher device_state [] = Inr (self, [])"
| "process_commands self address_matcher device_state (command # rest) =
     (case process_sequence self address_matcher device_state command of
        Inl (e, command') \<Rightarrow> Inl (e, command' # rest)
      | Inr (self', command') \<Rightarrow>
          (case process_commands self' address_matcher device_state rest of
             Inl (e, rest') \<Rightarrow> Inl (e, command' # rest')
           | Inr (self'', rest') \<Rightarrow> Inr (self'', command' # rest')))"

section \<open>The declarative tree and the device keys\<close>

text \<open>
  The tree is a dictionary.  Its recognised keys are fields of the record, \<open>None\<close> when the
  key is absent.  \<open>tree_keys\<close> holds the other keys in insertion order, each with the
  address of the list object that is its value, and \<open>tree_store\<close> holds the contents of
  the list objects, a list of command tuples each: two keys with the same address hold
  the same list, and what \<open>append\<close> does to it shows under both.  Only keys that begin
  with \<open>device\<close> are ever looked at.  The commands are tuples, as the module documents
  them, and the matcher objects are values of the tuples.
\<close>

record tree =
  tree_callbacks :: "(string \<times> prototype) list option"
  tree_identification :: "(int \<times> string) list option"
  tree_slave_id :: "int option"
  tree_buffer_size :: "int option"
  tree_mode :: "string option"
  tree_namespace :: "string option"
  tree_on_received :: "string option"
  tree_keys :: "(string \<times> nat) list"
  tree_store :: "nat \<Rightarrow> command list"

text \<open>\<open>tree.items()\<close> for the other keys: each key with the contents of its list.\<close>

definition tree_entries :: "tree \<Rightarrow> (string \<times> command list) list" where
  "tree_entries tr = map (\<lambda>(key, device). (key, tree_store tr device)) (tree_keys tr)"

text \<open>
  \<open>VALID_C_FUNCTION_NAME.match(cb)\<close> for \<open>^[a-zA-Z_][a-zA-Z0-9_]*$\<close>; in Python \<open>$\<close> also
  matches before a newline that ends the string.
\<close>

definition valid_c_function_name :: "string \<Rightarrow> bool" where
  "valid_c_function_name cb =
     (case cb of
        [] \<Rightarrow> False
      | c # cs \<Rightarrow>
          is_alpha_us c \<and>
          (let r = dropWhile (\<lambda>x. is_alpha_us x \<or> is_digit x) cs in r = [] \<or> r = newline))"

text \<open>\<open>re.match(r"^device(@\d+)?$", key)\<close>, the test of the buffer sizing loop.\<close>

definition device_key_re :: "string \<Rightarrow> bool" where
  "device_key_re key =
     (startswith key ''device'' \<and>
      (let r = drop 6 key
       in r = [] \<or> r = newline \<or>
          (case r of
             [] \<Rightarrow> False
           | c # ds \<Rightarrow>
               c = CHR ''@'' \<and> takeWhile is_digit ds \<noteq> [] \<and>
               (dropWhile is_digit ds = [] \<or> dropWhile is_digit ds = newline))))"

text \<open>
  \<open>DEVICE_ADDR_RE = device@((?:0x)?([0-9a-fA-F]+))\<close>: the first group of a match that
  starts at the beginning of the string, and \<open>re.search\<close>, which takes the leftmost match.
\<close>

definition addr_match_here :: "string \<Rightarrow> string option" where
  "addr_match_here s =
     (if startswith s ''device@''
      then (let r = drop 7 s
            in if startswith r ''0x'' \<and> takeWhile is_hex (drop 2 r) \<noteq> []
               then Some (''0x'' @ takeWhile is_hex (drop 2 r))
               else if takeWhile is_hex r \<noteq> [] then Some (takeWhile is_hex r)
               else None)
      else None)"

fun addr_search :: "string \<Rightarrow> string option" where
  "addr_search [] = None"
| "addr_search (c # cs) =
     (case addr_match_here (c # cs) of Some g \<Rightarrow> Some g | None \<Rightarrow> addr_search cs)"

text \<open>
  \<open>int(text, 0)\<close> on a text made of an optional \<open>0x\<close> and hexadecimal digits, which is all
  the first group can hold: a hexadecimal or binary literal, or a decimal one, which
  must not begin with a zero unless it is zero, and which the interpreter refuses beyond
  its default limit of 4300 digits.
\<close>

definition digit_val :: "char \<Rightarrow> int" where
  "digit_val c = (let n = (of_char c :: nat) in
     if 48 \<le> n \<and> n \<le> 57 then int n - 48
     else if 97 \<le> n \<and> n \<le> 102 then int n - 87
     else int n - 55)"

definition int_of_digits :: "int \<Rightarrow> string \<Rightarrow> int" where
  "int_of_digits base ds = foldl (\<lambda>acc c. acc * base + digit_val c) 0 ds"

definition py_int0 :: "string \<Rightarrow> py_exc + int" where
  "py_int0 s =
     (if startswith s ''0x''
      then (if drop 2 s \<noteq> [] \<and> list_all is_hex (drop 2 s)
            then Inr (int_of_digits 16 (drop 2 s)) else Inl ValueError)
      else if startswith s ''0b'' \<or> startswith s ''0B''
      then (if drop 2 s \<noteq> [] \<and> list_all (\<lambda>c. c = CHR ''0'' \<or> c = CHR ''1'') (drop 2 s)
            then Inr (int_of_digits 2 (drop 2 s)) else Inl ValueError)
      else if s \<noteq> [] \<and> list_all is_digit s
      then (if length s > 4300 then Inl ValueError
            else if list_all (\<lambda>c. c = CHR ''0'') s then Inr 0
            else if hd s = CHR ''0'' then Inl ValueError
            else Inr (int_of_digits 10 s))
      else Inl ValueError)"

section \<open>Building the generator\<close>

text \<open>\<open>CodeGenerator.process_callbacks\<close>.\<close>

fun process_callbacks ::
  "(string \<times> prototype) list \<Rightarrow> (string \<times> prototype) list
     \<Rightarrow> py_exc + (string \<times> prototype) list"
where
  "process_callbacks cbs [] = Inr cbs"
| "process_callbacks cbs ((cb, proto) # rest) =
     (if \<not> valid_c_function_name cb
      then Inl (ParsingException ''Callback name is not a valid C function name'')
      else process_callbacks (dict_set cbs cb proto) rest)"

text \<open>
  The buffer sizing loops of \<open>__init__\<close>: over the commands of one key, and over the keys
  of the tree.
\<close>

fun size_commands :: "int \<Rightarrow> command list \<Rightarrow> int" where
  "size_commands acc [] = acc"
| "size_commands acc (cmd # rest) = size_commands (max acc (int (sum_sizes cmd))) rest"

fun size_entries :: "int \<Rightarrow> (string \<times> command list) list \<Rightarrow> int" where
  "size_entries acc [] = acc"
| "size_entries acc ((key, value) # rest) =
     size_entries (if device_key_re key then size_commands acc value else acc) rest"

text \<open>The object codes and \<open>MEI_OBJECT_CATEGORY\<close>.\<close>

definition PRODUCT_CODE :: int where
  "PRODUCT_CODE = 1"

definition MODEL_NAME :: int where
  "MODEL_NAME = 5"

definition MEI_OBJECT_CATEGORY :: "int \<Rightarrow> int option" where
  "MEI_OBJECT_CATEGORY code =
     (if code \<in> {0, 1, 2} then Some 1
      else if code \<in> {3, 4, 5, 6} then Some 2
      else if code \<in> {128, 129, 130, 131, 132, 133, 134, 135} then Some 3
      else None)"

text \<open>The loop over \<open>self.identification.keys()\<close>.\<close>

fun identification_loop :: "string \<Rightarrow> int \<Rightarrow> int list \<Rightarrow> py_exc + int" where
  "identification_loop md level [] = Inr level"
| "identification_loop md level (keys # rest) =
     (case MEI_OBJECT_CATEGORY keys of
        None \<Rightarrow> Inl (ParsingException
          (''Invalid identification key '' @ str_int keys @ '' in '' @ md @ '' mode''))
      | Some c \<Rightarrow> identification_loop md (max level c) rest)"

text \<open>The three commands that \<open>__init__\<close> appends when identification is active.\<close>

definition report_slave_id_command :: command where
  "report_slave_id_command =
     [M \<lparr>cls = u8, mvalue = IntV 17, malias = Some ''REPORT_SLAVE_ID'', mpos = None\<rparr>,
      S ''on_report_slave_id'']"

definition read_device_identification_command :: command where
  "read_device_identification_command =
     [M \<lparr>cls = u8, mvalue = IntV 43, malias = Some ''ENCAPSULATED_INTERFACE_TRANSPORT'', mpos = None\<rparr>,
      M \<lparr>cls = u8, mvalue = IntV 14, malias = Some ''READ_DEVICE_IDENTIFICATION'', mpos = None\<rparr>,
      M \<lparr>cls = u8, mvalue = Range 1 3, malias = Some ''READ_DEVICE_ID_CODE'', mpos = None\<rparr>,
      M \<lparr>cls = u8, mvalue = NoneV, malias = Some ''OBJECT_ID'', mpos = None\<rparr>,
      S ''on_read_device_identification'']"

definition diagnostics_command :: command where
  "diagnostics_command =
     [M \<lparr>cls = u8, mvalue = IntV 8, malias = Some ''DIAGNOSTICS'', mpos = None\<rparr>,
      M \<lparr>cls = u16, mvalue = NoneV, malias = Some ''SUBFUNCTION'', mpos = None\<rparr>,
      M \<lparr>cls = u16, mvalue = NoneV, malias = Some ''DATA'', mpos = None\<rparr>,
      S ''on_diagnostics'']"

text \<open>\<open>device.append(cmd)\<close> on the list object at the address \<open>device\<close>.\<close>

definition device_append ::
  "(nat \<Rightarrow> command list) \<Rightarrow> nat \<Rightarrow> command \<Rightarrow> (nat \<Rightarrow> command list)"
where
  "device_append store device cmd = store(device := store device @ [cmd])"

text \<open>
  The choice of the list that receives them: the value of the first key that starts with
  \<open>device@\<close>, else the value of the key \<open>device\<close>.
\<close>

definition identification_device :: "(string \<times> nat) list \<Rightarrow> py_exc + nat" where
  "identification_device keys =
     (case find (\<lambda>(key, device). startswith key ''device@'') keys of
        Some (device_key, device) \<Rightarrow> Inr device
      | None \<Rightarrow>
          (case map_of keys ''device'' of
             None \<Rightarrow> Inl (ParsingException
               (''identification requires a '' @ squote @ ''device'' @ squote @ '' node''))
           | Some device \<Rightarrow> Inr device))"

text \<open>
  The identification block of \<open>__init__\<close>, entered in slave mode when \<open>PRODUCT_CODE\<close> is
  declared.  It returns the generator and the store, in which it extends the list of the
  device; when it raises, the store is as the appends made until then leave it.
\<close>

definition inject_identification ::
  "CodeGenerator \<Rightarrow> (string \<times> nat) list \<Rightarrow> (nat \<Rightarrow> command list)
     \<Rightarrow> (py_exc \<times> (nat \<Rightarrow> command list)) + (CodeGenerator \<times> (nat \<Rightarrow> command list))"
where
  "inject_identification self keys store =
     (case identification_device keys of
        Inl e \<Rightarrow> Inl (e, store)
      | Inr device \<Rightarrow>
          let store1 = device_append store device report_slave_id_command;
              self1 = self\<lparr>callbacks := dict_set (callbacks self) ''on_report_slave_id'' []\<rparr>
          in (case identification_loop (mode self1) (conformity_level self1)
                     (map fst (identification self1)) of
                Inl e \<Rightarrow> Inl (e, store1)
              | Inr level \<Rightarrow>
                  let self2 = self1\<lparr>conformity_level := level\<rparr>;
                      store2 = device_append store1 device read_device_identification_command;
                      self3 = self2\<lparr>callbacks := dict_set (callbacks self2)
                                ''on_read_device_identification''
                                [PN u8 ''device_id'', PN u8 ''object_id'']\<rparr>;
                      store3 = device_append store2 device diagnostics_command;
                      self4 = self3\<lparr>callbacks := dict_set (callbacks self3) ''on_diagnostics'' []\<rparr>
                  in Inr (self4, store3)))"

text \<open>
  The loop of \<open>process_devices\<close> over the keys of the tree; \<open>current_state\<close> is the index
  of the state \<open>DEVICE_ADDRESS\<close>.  The two \<open>if\<close> statements of the loop body are the two
  functions below, which take the contents of the list \<open>value\<close> and return them as the
  statement leaves them; the loop reads them from the store and writes them back.
\<close>

definition process_runtime_device ::
  "CodeGenerator \<Rightarrow> nat \<Rightarrow> command list
     \<Rightarrow> (py_exc \<times> command list) + (CodeGenerator \<times> command list)"
where
  "process_runtime_device self current_state value =
     (let (self1, device_state) = new_state self ''DEVICE'' 1;
          address_matcher = \<lparr>cls = RuntimeDeviceAddress, mvalue = NoneV,
            malias = Some (name (states self1 ! device_state)), mpos = None\<rparr>;
          self2 = State_add self1 current_state
            \<lparr>t_matcher = address_matcher, t_next = device_state, set_crc = False\<rparr>
      in process_commands self2 address_matcher device_state value)"

definition process_fixed_device ::
  "CodeGenerator \<Rightarrow> nat \<Rightarrow> string \<Rightarrow> command list
     \<Rightarrow> (py_exc \<times> command list) + (CodeGenerator \<times> command list)"
where
  "process_fixed_device self current_state key value =
     (case addr_search key of
        None \<Rightarrow> Inl (ParsingException ''Malformed device address'', value)
      | Some text \<Rightarrow>
          (case py_int0 text of
             Inl e \<Rightarrow> Inl (e, value)
           | Inr a \<Rightarrow>
               let self0 = self\<lparr>device_address := Some a\<rparr>
               in if a > 254 then Inl (ParsingException ''device address must be <= 254'', value)
                  else
                    let (self1, device_state) = new_state self0 (''DEVICE_'' @ str_int a) 1
                    in (case Matcher_init u8 [AInt a] (Some (name (states self1 ! device_state))) of
                          Inl e \<Rightarrow> Inl (e, value)
                        | Inr address_matcher \<Rightarrow>
                            let self2 = State_add self1 current_state
                              \<lparr>t_matcher = address_matcher, t_next = device_state, set_crc = False\<rparr>
                            in process_commands self2 address_matcher device_state value)))"

fun process_devices_loop ::
  "CodeGenerator \<Rightarrow> nat \<Rightarrow> (nat \<Rightarrow> command list) \<Rightarrow> (string \<times> nat) list
     \<Rightarrow> (py_exc \<times> (nat \<Rightarrow> command list)) + (CodeGenerator \<times> (nat \<Rightarrow> command list))"
where
  "process_devices_loop self current_state store [] = Inr (self, store)"
| "process_devices_loop self current_state store ((key, device) # rest) =
     (case (if key = ''device'' then process_runtime_device self current_state (store device)
            else Inr (self, store device)) of
        Inl (e, value1) \<Rightarrow> Inl (e, store(device := value1))
      | Inr (self1, value1) \<Rightarrow>
          (case (if startswith key ''device@''
                 then process_fixed_device self1 current_state key value1
                 else Inr (self1, value1)) of
             Inl (e, value2) \<Rightarrow> Inl (e, store(device := value2))
           | Inr (self2, value2) \<Rightarrow>
               process_devices_loop self2 current_state (store(device := value2)) rest))"

definition process_devices ::
  "CodeGenerator \<Rightarrow> (string \<times> nat) list \<Rightarrow> (nat \<Rightarrow> command list)
     \<Rightarrow> (py_exc \<times> (nat \<Rightarrow> command list)) + (CodeGenerator \<times> (nat \<Rightarrow> command list))"
where
  "process_devices self keys store =
     (let (self1, current_state) = new_state self ''DEVICE_ADDRESS'' 0
      in process_devices_loop self1 current_state store keys)"

text \<open>
  \<open>CodeGenerator.__init__\<close> from the buffer sizing to \<open>self.conformity_level = 0\<close>, given
  the callbacks that \<open>process_callbacks\<close> collected; the unused attributes \<open>counter\<close> and
  \<open>buffer_index\<close> are left out.
\<close>

definition configure :: "tree \<Rightarrow> (string \<times> prototype) list \<Rightarrow> py_exc + CodeGenerator" where
  "configure tr cbs =
     (let size0 = size_entries 0 (tree_entries tr);
          size1 = size0 + 4;
          size2 = max size1 (case tree_buffer_size tr of None \<Rightarrow> 0 | Some b \<Rightarrow> b);
          md = (case tree_mode tr of None \<Rightarrow> ''slave'' | Some x \<Rightarrow> x)
      in if md \<noteq> ''slave'' \<and> md \<noteq> ''master''
         then Inl (ParsingException
           (''The mode must be '' @ squote @ ''master'' @ squote @ '' or '' @
            squote @ ''slave'' @ squote))
         else Inr \<lparr>states = [], callbacks = cbs, max_buf_size = size2,
                on_ready_reply_callback = tree_on_received tr,
                device_address = None,
                identification = (case tree_identification tr of None \<Rightarrow> [] | Some i \<Rightarrow> i),
                slave_id = (case tree_slave_id tr of None \<Rightarrow> 255 | Some i \<Rightarrow> i),
                mode = md,
                namespace = (case tree_namespace tr of None \<Rightarrow> ''slave'' | Some n \<Rightarrow> n),
                conformity_level = 0\<rparr>)"

text \<open>
  \<open>CodeGenerator.__init__\<close>, with the tree as the call leaves it, whether it returns the
  generator or raises.
\<close>

definition CodeGenerator_init_tree ::
  "tree \<Rightarrow> (py_exc \<times> tree) + (CodeGenerator \<times> tree)"
where
  "CodeGenerator_init_tree tr =
     (case tree_callbacks tr of
        None \<Rightarrow> Inl (ParsingException ''Callbacks are required'', tr)
      | Some callback_list \<Rightarrow>
          (case process_callbacks [] callback_list of
             Inl e \<Rightarrow> Inl (e, tr)
           | Inr cbs \<Rightarrow>
               (case configure tr cbs of
                  Inl e \<Rightarrow> Inl (e, tr)
                | Inr self0 \<Rightarrow>
                    (case (if mode self0 = ''slave'' \<and> dict_has (identification self0) PRODUCT_CODE
                           then inject_identification self0 (tree_keys tr) (tree_store tr)
                           else Inr (self0, tree_store tr)) of
                       Inl (e, store1) \<Rightarrow> Inl (e, tr\<lparr>tree_store := store1\<rparr>)
                     | Inr (self1, store1) \<Rightarrow>
                         (case process_devices self1 (tree_keys tr) store1 of
                            Inl (e, store2) \<Rightarrow> Inl (e, tr\<lparr>tree_store := store2\<rparr>)
                          | Inr (self2, store2) \<Rightarrow>
                              Inr (self2, tr\<lparr>tree_store := store2\<rparr>))))))"

text \<open>
  The constructor as a caller sees it that does not look at the tree again when an
  exception arrives: the exception alone, or the generator and the tree.
\<close>

definition CodeGenerator_init :: "tree \<Rightarrow> py_exc + (CodeGenerator \<times> tree)" where
  "CodeGenerator_init tr = map_sum fst id (CodeGenerator_init_tree tr)"

section \<open>The emitter functions the properties are about\<close>

text \<open>
  The module variable \<open>INDENT\<close>, which \<open>main\<close> sets from the tab size, is an explicit
  argument; \<open>rep_str INDENT n\<close> is \<open>INDENT * n\<close>.
\<close>

definition rep_str :: "string \<Rightarrow> nat \<Rightarrow> string" where
  "rep_str INDENT n = concat (replicate n INDENT)"

text \<open>\<open>CodeGenerator.get_enums_text\<close>: the enumeration of the state names.\<close>

definition get_enums_text :: "string \<Rightarrow> CodeGenerator \<Rightarrow> nat \<Rightarrow> string" where
  "get_enums_text INDENT self indent =
     (let tab = rep_str INDENT indent
      in join ('','' @ newline) (map (\<lambda>state. tab @ name state) (states self)))"

text \<open>\<open>State.to_code_case\<close>, \<open>OperationState.to_code\<close> and \<open>CodeGenerator.get_callbacks_text\<close>.\<close>

definition to_code_case :: "string \<Rightarrow> State \<Rightarrow> nat \<Rightarrow> string" where
  "to_code_case INDENT self indent = rep_str INDENT indent @ ''case state_t::'' @ name self @ '':'' @ newline"

definition OperationState_to_code :: "string \<Rightarrow> ops \<Rightarrow> nat \<Rightarrow> py_exc + string" where
  "OperationState_to_code INDENT operation indent =
     (let tab = rep_str INDENT indent
      in (case ops_to_code operation of
            Inl e \<Rightarrow> Inl e
          | Inr call \<Rightarrow> Inr (tab @ call @ newline @ tab @ ''break;'' @ newline)))"

fun callbacks_text_loop :: "string \<Rightarrow> nat \<Rightarrow> string \<Rightarrow> State list \<Rightarrow> py_exc + string" where
  "callbacks_text_loop INDENT indent state_code [] = Inr state_code"
| "callbacks_text_loop INDENT indent state_code (state # rest) =
     (case op state of
        None \<Rightarrow> callbacks_text_loop INDENT indent state_code rest
      | Some operation \<Rightarrow>
          (case OperationState_to_code INDENT operation (indent + 2) of
             Inl e \<Rightarrow> Inl e
           | Inr body \<Rightarrow>
               callbacks_text_loop INDENT indent
                 (state_code @ to_code_case INDENT state (indent + 1) @ body) rest))"

definition get_callbacks_text :: "string \<Rightarrow> CodeGenerator \<Rightarrow> nat \<Rightarrow> py_exc + string" where
  "get_callbacks_text INDENT self indent = callbacks_text_loop INDENT indent [] (states self)"

text \<open>\<open>CodeGenerator.get_report_slave_id_function\<close>.\<close>

definition get_report_slave_id_function ::
  "string \<Rightarrow> CodeGenerator \<Rightarrow> nat \<Rightarrow> py_exc + string"
where
  "get_report_slave_id_function INDENT self level =
     (if conformity_level self = 0 then Inr []
      else (case map_of (identification self) PRODUCT_CODE of
          None \<Rightarrow> Inl KeyError
        | Some product_code \<Rightarrow>
            let ident = (case map_of (identification self) MODEL_NAME of
                           Some model_name \<Rightarrow> product_code @ ''_'' @ model_name
                         | None \<Rightarrow> product_code);
                tab = rep_str INDENT level
            in Inr (join tab
                 [[],
                  newline @ ''/** Answer command 17 - Report slave id */'' @ newline,
                  ''inline void on_report_slave_id() {'' @ newline,
                  ''    Datagram::set_size(2); // Reset the count to 2 (ID + code)'' @ newline,
                  ''    Datagram::pack<uint8_t>('' @ str_int (int (length ident) + 2) @
                    ''); // Byte count'' @ newline,
                  ''    Datagram::pack<uint8_t>('' @ str_int (slave_id self) @
                    ''); // slave ID'' @ newline,
                  ''    Datagram::pack<uint8_t>(0xFF); // Status OK'' @ newline,
                  ''    Datagram::pack('' @ dquote @ ident @ dquote @ ''); // Function code'' @ newline,
                  ''}''])))"

section \<open>The command line\<close>

text \<open>
  \<open>Modbus.main\<close> after the arguments are parsed.  What the process does is described by
  what \<open>print\<close> wrote to standard output, what was written to standard error, and the
  file written.  \<open>generate_code\<close>, which substitutes the fragments of the emitter into the
  template, is an argument of the model: of the emitter only the functions above are
  embedded.  \<open>try_body\<close> is the body of the \<open>try\<close> statement.  An exception other than
  \<open>ParsingException\<close> is not caught and leaves \<open>main\<close>.  An empty output name is false
  in \<open>if args.output\<close>, and the text is then printed.
\<close>

record cli_args =
  output_file :: "string option"
  tab_size :: nat

record cli_result =
  stdout :: "string list"
  stderr :: "string list"
  written :: "(string \<times> string) option"

definition try_body ::
  "(string \<Rightarrow> CodeGenerator \<Rightarrow> py_exc + string) \<Rightarrow> string \<Rightarrow> tree \<Rightarrow> py_exc + string"
where
  "try_body generate_code INDENT modbus =
     (case CodeGenerator_init modbus of
        Inl e \<Rightarrow> Inl e
      | Inr (gen, _) \<Rightarrow> generate_code INDENT gen)"

definition main ::
  "(string \<Rightarrow> CodeGenerator \<Rightarrow> py_exc + string) \<Rightarrow> cli_args \<Rightarrow> tree \<Rightarrow> py_exc + cli_result"
where
  "main generate_code args modbus =
     (let INDENT = replicate (tab_size args) (CHR '' '')
      in (case try_body generate_code INDENT modbus of
            Inl (ParsingException e) \<Rightarrow>
              Inr \<lparr>stdout = [''Error: '' @ e], stderr = [], written = None\<rparr>
          | Inl other \<Rightarrow> Inl other
          | Inr generated_code \<Rightarrow>
              (case output_file args of
                 Some path \<Rightarrow>
                   if path \<noteq> []
                   then Inr \<lparr>stdout = [], stderr = [], written = Some (path, generated_code)\<rparr>
                   else Inr \<lparr>stdout = [generated_code], stderr = [], written = None\<rparr>
               | None \<Rightarrow> Inr \<lparr>stdout = [generated_code], stderr = [], written = None\<rparr>)))"

text \<open>
  The exit status of the script: \<open>main\<close> never calls \<open>sys.exit\<close>, so a run in which it
  returns ends with status 0, and one that an uncaught exception ends has status 1.
\<close>

definition exit_status :: "py_exc + cli_result \<Rightarrow> nat" where
  "exit_status r = (case r of Inl _ \<Rightarrow> 1 | Inr _ \<Rightarrow> 0)"

section \<open>Example inputs\<close>

text \<open>A matcher as its class builds it, without an alias, and a tree with no key at all.\<close>

definition mk :: "mclass \<Rightarrow> mvalue \<Rightarrow> matcher" where
  "mk k v = \<lparr>cls = k, mvalue = v, malias = None, mpos = None\<rparr>"

definition empty_tree :: tree where
  "empty_tree = \<lparr>tree_callbacks = None, tree_identification = None, tree_slave_id = None,
     tree_buffer_size = None, tree_mode = None, tree_namespace = None,
     tree_on_received = None, tree_keys = [], tree_store = (\<lambda>device. [])\<rparr>"

text \<open>
  A tree with the given other keys, each with a list object of its own: the list of the
  key with index \<open>i\<close> is at the address \<open>i\<close>.
\<close>

definition with_entries :: "tree \<Rightarrow> (string \<times> command list) list \<Rightarrow> tree" where
  "with_entries tr entries =
     tr\<lparr>tree_keys := zip (map fst entries) [0..<length entries],
        tree_store := (\<lambda>device. if device < length entries then snd (entries ! device) else [])\<rparr>"

text \<open>
  Two commands of one device whose first matchers \<open>u8(5)\<close> and \<open>u8([5, 6])\<close> both accept
  the byte 5.
\<close>

definition overlap_tree :: tree where
  "overlap_tree =
     with_entries (empty_tree\<lparr>tree_callbacks := Some [(''on_a'', []), (''on_b'', [])]\<rparr>)
       [(''device@1'',
         [[M (mk u8 (IntV 5)), S ''on_a''], [M (mk u8 (ListV [5, 6])), S ''on_b'']])]"

text \<open>Two commands of one device that name the same callback.\<close>

definition shared_callback_tree :: tree where
  "shared_callback_tree =
     with_entries (empty_tree\<lparr>tree_callbacks := Some [(''on_a'', [])]\<rparr>)
       [(''device@1'',
         [[M (mk u8 (IntV 5)), S ''on_a''], [M (mk u8 (IntV 6)), S ''on_a'']])]"

text \<open>A device key with a hexadecimal address and a command of nine bytes.\<close>

definition hex_key_tree :: tree where
  "hex_key_tree =
     with_entries (empty_tree\<lparr>tree_callbacks := Some [(''on_a'', [])]\<rparr>)
       [(''device@0x11'',
         [[M (mk u8 (IntV 5)), M (mk u32 NoneV), M (mk u32 NoneV), S ''on_a'']])]"

text \<open>An identification that declares only the vendor name (object code 0).\<close>

definition vendor_only_tree :: tree where
  "vendor_only_tree =
     with_entries
       (empty_tree\<lparr>tree_callbacks := Some [], tree_identification := Some [(0, ''ACME'')]\<rparr>)
       [(''device@1'', [])]"

text \<open>An identification with a product code and a model name, and no command.\<close>

definition identified_tree :: tree where
  "identified_tree =
     with_entries
       (empty_tree\<lparr>tree_callbacks := Some [],
          tree_identification := Some [(1, ''PC''), (5, ''MX'')]\<rparr>)
       [(''device@1'', [])]"

text \<open>
  The keys \<open>device@1\<close> and \<open>device@2\<close> with one list object for both, which is empty, and
  an identification that declares a product code.
\<close>

definition shared_list_tree :: tree where
  "shared_list_tree =
     empty_tree\<lparr>tree_callbacks := Some [], tree_identification := Some [(1, ''PC'')],
       tree_keys := [(''device@1'', 0), (''device@2'', 0)]\<rparr>"

text \<open>An identification that declares a product code and the unknown object code 7.\<close>

definition unknown_object_tree :: tree where
  "unknown_object_tree =
     with_entries
       (empty_tree\<lparr>tree_callbacks := Some [],
          tree_identification := Some [(1, ''PC''), (7, ''X'')]\<rparr>)
       [(''device@1'', [])]"

text \<open>One command with one matcher.\<close>

definition single_tree :: tree where
  "single_tree =
     with_entries (empty_tree\<lparr>tree_callbacks := Some [(''on_a'', [])]\<rparr>)
       [(''device@1'', [[M (mk u8 (IntV 5)), S ''on_a'']])]"

section \<open>Offsets of the typed extractions\<close>

text \<open>
  The offset of the parameter matched against the chain item with index \<open>j\<close>: the sizes of
  the items that remain in the chain once that item is taken off its end, which are the
  items before it, plus the size of the item less the size of the parameter.  The access
  is chosen by the size of the parameter.
\<close>

definition chain_offset :: "item list \<Rightarrow> nat \<Rightarrow> mclass \<Rightarrow> int" where
  "chain_offset chn j k =
     int (sum_sizes (take j chn)) + (int (item_size (chn ! j)) - int (csize k))"

definition buffer_access :: "nat \<Rightarrow> int \<Rightarrow> string" where
  "buffer_access param_size offset =
     (if param_size = 1 then ''buffer['' @ str_int offset @ '']''
      else if param_size = 2 then ''ntoh('' @ str_int offset @ '')''
      else ''ntohl('' @ str_int offset @ '')'')"

text \<open>
  The offset as the specification words it: the same sum, with the difference of the
  widths of the matcher and of the parameter subtracted.
\<close>

definition stated_offset :: "item list \<Rightarrow> nat \<Rightarrow> mclass \<Rightarrow> int" where
  "stated_offset chn j k =
     int (sum_sizes (take j chn)) - (int (item_size (chn ! j)) - int (csize k))"

text \<open>An operation with a prototype \<open>[u8, u16]\<close> on a chain of four matchers.\<close>

definition example_operation :: Operation where
  "example_operation =
     \<lparr>op_name = ''on_write'',
      prototype = [P u8, PN u16 ''count''],
      chain = [M (mk u8 (IntV 1)), M (mk u8 (IntV 6)), M (mk u16 (Range 0 255)),
               M (mk u16 NoneV)]\<rparr>"

section \<open>Notions for the properties of the automaton\<close>

text \<open>
  What \<open>Matcher.__eq__\<close> compares: the class and the value.  The transitions of the states
  of a well-formed automaton lead to states created later, and the transitions of a state
  other than the initial one carry pairwise different matchers.
\<close>

definition key_of :: "matcher \<Rightarrow> mclass \<times> mvalue" where
  "key_of m = (cls m, mvalue m)"

definition forward_edges :: "State list \<Rightarrow> bool" where
  "forward_edges ss =
     (\<forall>i<length ss. \<forall>t\<in>set (transition (ss ! i)). i < t_next t \<and> t_next t < length ss)"

definition distinct_siblings :: "State list \<Rightarrow> bool" where
  "distinct_siblings ss =
     (\<forall>i<length ss. 0 < i \<longrightarrow> distinct (map (key_of \<circ> t_matcher) (transition (ss ! i))))"

definition trie :: "State list \<Rightarrow> bool" where
  "trie ss = (forward_edges ss \<and> distinct_siblings ss)"

text \<open>
  All the state paths that start at a state and follow, matcher by matcher, a transition
  with a structurally equal matcher.
\<close>

fun paths :: "State list \<Rightarrow> nat \<Rightarrow> matcher list \<Rightarrow> nat list list" where
  "paths ss s [] = [[]]"
| "paths ss s (m # ms) =
     concat (map (\<lambda>t. map (\<lambda>q. t_next t # q) (paths ss (t_next t) ms))
               (filter (\<lambda>t. matcher_eq (t_matcher t) m) (transition (ss ! s))))"

text \<open>The leading matchers of a command tuple: its elements before the first string.\<close>

fun leading :: "item list \<Rightarrow> matcher list" where
  "leading [] = []"
| "leading (M m # rest) = m # leading rest"
| "leading (S _ # rest) = []"

text \<open>An element of a command, and a list of commands, with the positions removed.\<close>

fun erase_pos :: "item \<Rightarrow> item" where
  "erase_pos (M m) = M (m\<lparr>mpos := None\<rparr>)"
| "erase_pos (S s) = S s"

definition erase_positions :: "command list \<Rightarrow> command list" where
  "erase_positions value = map (map erase_pos) value"

text \<open>
  The identification is active in slave mode with \<open>PRODUCT_CODE\<close> declared; the three
  commands that are then appended, in the order of the appends; and the tree after a call
  of the constructor, whether it returned or raised.
\<close>

definition identification_active :: "tree \<Rightarrow> bool" where
  "identification_active tr =
     ((case tree_mode tr of None \<Rightarrow> ''slave'' | Some x \<Rightarrow> x) = ''slave'' \<and>
      dict_has (case tree_identification tr of None \<Rightarrow> [] | Some i \<Rightarrow> i) PRODUCT_CODE)"

definition identification_commands :: "command list" where
  "identification_commands =
     [report_slave_id_command, read_device_identification_command, diagnostics_command]"

definition tree_after :: "(py_exc \<times> tree) + (CodeGenerator \<times> tree) \<Rightarrow> tree" where
  "tree_after r = (case r of Inl (e, tr) \<Rightarrow> tr | Inr (g, tr) \<Rightarrow> tr)"

text \<open>
  The automaton only grows: a later list of states is at least as long, and each state
  of the earlier list keeps its transitions as a prefix of the later ones.
\<close>

definition grows :: "State list \<Rightarrow> State list \<Rightarrow> bool" where
  "grows ss ss' =
     (length ss \<le> length ss' \<and>
      (\<forall>i<length ss. take (length (transition (ss ! i))) (transition (ss' ! i)) =
         transition (ss ! i)))"

text \<open>
  The class and the value of the address matcher that \<open>process_devices\<close> builds for a
  key: \<open>RuntimeDeviceAddress()\<close> for the key \<open>device\<close>, \<open>u8(address)\<close> for a key that starts
  with \<open>device@\<close>; the other keys have none.
\<close>

definition device_address_of :: "string \<Rightarrow> (mclass \<times> mvalue) option" where
  "device_address_of key =
     (if key = ''device'' then Some (RuntimeDeviceAddress, NoneV)
      else if startswith key ''device@''
      then (case addr_search key of
              None \<Rightarrow> None
            | Some text \<Rightarrow> (case py_int0 text of Inl e \<Rightarrow> None | Inr a \<Rightarrow> Some (u8, IntV a)))
      else None)"

text \<open>
  A device state serves a list of commands: it is a state other than the initial one, the
  initial state has a transition to it whose matcher has the given class and value, and
  the leading matchers of each command have exactly one state path from it.
\<close>

definition serves :: "State list \<Rightarrow> mclass \<times> mvalue \<Rightarrow> nat \<Rightarrow> command list \<Rightarrow> bool" where
  "serves ss ak st cmds =
     (0 < st \<and> st < length ss \<and>
      (\<exists>t\<in>set (transition (ss ! 0)). key_of (t_matcher t) = ak \<and> t_next t = st) \<and>
      (\<forall>cmd\<in>set cmds. \<exists>q. paths ss st (leading cmd) = [q]))"

text \<open>
  Two commands of one device that agree on their first two matchers, \<open>u8(3)\<close> and
  \<open>u16(0, 255)\<close>, and differ on the third.
\<close>

definition prefix_command_a :: command where
  "prefix_command_a =
     [M (mk u8 (IntV 3)), M (mk u16 (Range 0 255)), M (mk u16 NoneV), S ''on_a'']"

definition prefix_command_b :: command where
  "prefix_command_b =
     [M (mk u8 (IntV 3)), M (mk u16 (Range 0 255)), M (mk u8 (IntV 7)), S ''on_b'']"

definition prefix_tree :: tree where
  "prefix_tree =
     with_entries (empty_tree\<lparr>tree_callbacks := Some [(''on_a'', []), (''on_b'', [])]\<rparr>)
       [(''device@1'', [prefix_command_a, prefix_command_b])]"

text \<open>
  Two keys that give the same device address, 1, in decimal and in hexadecimal, each with
  the command \<open>(u8(5), 'on_a')\<close> in a list of its own.
\<close>

definition same_address_tree :: tree where
  "same_address_tree =
     with_entries (empty_tree\<lparr>tree_callbacks := Some [(''on_a'', [])]\<rparr>)
       [(''device@1'', [[M (mk u8 (IntV 5)), S ''on_a'']]),
        (''device@0x1'', [[M (mk u8 (IntV 5)), S ''on_a'']])]"

section \<open>The fit check\<close>

lemma vmin_lo: "k \<noteq> f32 \<Longrightarrow> vmin k = Inr (lo_of k)"
  by (cases k) (simp_all add: vmin_def lo_of_def)

lemma vmax_hi: "k \<noteq> f32 \<Longrightarrow> vmax k = Inr (hi_of k)"
  by (cases k) (simp_all add: vmax_def hi_of_def)

lemma fits_list_range:
  "k \<noteq> f32 \<Longrightarrow> fits_list k l = Inr (\<forall>t\<in>set l. lo_of k \<le> t \<and> t \<le> hi_of k)"
  by (induction l) (auto simp: vmin_lo vmax_hi)

lemma param0:
  "k \<noteq> f32 \<Longrightarrow>
   Matcher_init k [AInt 0] None = Inr \<lparr>cls = k, mvalue = IntV 0, malias = None, mpos = None\<rparr>"
  by (cases k) simp_all

lemma param0_f32: "Matcher_init f32 [AInt 0] None = Inl ValueError"
  by simp

lemma fits_exact:
  assumes "item \<noteq> f32"
  shows "fits self item = Inr
     (msize self \<le> csize item \<or>
        (case mvalue self of
           Range f t \<Rightarrow> lo_of item \<le> f \<and> t \<le> hi_of item
         | ListV l \<Rightarrow> (\<forall>t\<in>set l. lo_of item \<le> t \<and> t \<le> hi_of item)
         | _ \<Rightarrow> True))"
  unfolding fits_def param0 [OF assms]
  using assms
  by (simp add: msize_def vmin_lo vmax_hi fits_list_range split: mvalue.splits)

text \<open>
  C2, as amended.  For a matcher \<open>self\<close> and an integer parameter class \<open>item\<close>, the fit check
  returns a truth value.  It is true when the parameter is at least as wide as the
  matcher.  When the parameter is strictly narrower: a range fits when
  \<open>min \<le> from\<close> and \<open>to \<le> max\<close> of the parameter, and does not fit when \<open>from < min\<close> or
  \<open>to > max + 1\<close>; a list fits exactly when all its elements lie between \<open>min\<close> and
  \<open>max\<close>; a single value and the wildcard \<open>None\<close> always fit.  (The case \<open>to = max + 1\<close> of
  a range is left open here.)
\<close>

theorem fits_narrower_parameter:
  assumes "item \<noteq> f32"
  shows "\<exists>b. fits self item = Inr b \<and>
     (msize self \<le> csize item \<longrightarrow> b) \<and>
     (csize item < msize self \<longrightarrow>
        (case mvalue self of
           Range f t \<Rightarrow> (lo_of item \<le> f \<and> t \<le> hi_of item \<longrightarrow> b) \<and>
                        (f < lo_of item \<or> hi_of item + 1 < t \<longrightarrow> \<not> b)
         | ListV l \<Rightarrow> b = (\<forall>t\<in>set l. lo_of item \<le> t \<and> t \<le> hi_of item)
         | IntV v \<Rightarrow> b
         | NoneV \<Rightarrow> b))"
  unfolding fits_exact [OF assms]
  by (auto split: mvalue.splits)

theorem fits_narrower_parameter_witness:
  "u8 \<noteq> f32 \<and> fits (mk u16 (Range 0 255)) u8 = Inr True \<and>
   fits (mk u16 (Range 0 512)) u8 = Inr False"
  using fits_narrower_parameter [of u8 "mk u16 (Range 0 255)"]
    fits_narrower_parameter [of u8 "mk u16 (Range 0 512)"]
  by (auto simp: mk_def msize_def csize_def lo_of_def hi_of_def)

text \<open>
  C2 as stated fails: the half-open matcher \<open>u16(0, 0x100)\<close> does not fit a \<open>u8\<close>
  parameter, and the wildcard \<open>u16()\<close> does.
\<close>

theorem fits_counterexample:
  "fits (mk u16 (Range 0 256)) u8 = Inr False \<and> fits (mk u16 NoneV) u8 = Inr True"
  by (simp add: fits_def mk_def msize_def csize_def vmin_def vmax_def)

section \<open>The command line\<close>

text \<open>
  C6, as amended.  When the construction of the generator, or the generation of the text,
  raises a \<open>ParsingException\<close>, the run prints the single line \<open>Error: <message>\<close> on
  standard output and writes no file; and whenever \<open>main\<close> returns, on an error as on
  success, nothing was written to standard error and the exit status is 0.
\<close>

theorem main_reports_on_stdout:
  "(CodeGenerator_init modbus = Inl (ParsingException msg) \<longrightarrow>
      main generate_code args modbus =
        Inr \<lparr>stdout = [''Error: '' @ msg], stderr = [], written = None\<rparr>) \<and>
   (try_body generate_code (replicate (tab_size args) (CHR '' '')) modbus =
        Inl (ParsingException msg) \<longrightarrow>
      main generate_code args modbus =
        Inr \<lparr>stdout = [''Error: '' @ msg], stderr = [], written = None\<rparr>) \<and>
   (\<forall>r. main generate_code args modbus = Inr r \<longrightarrow>
      stderr r = [] \<and> exit_status (main generate_code args modbus) = 0)"
  by (auto simp: main_def try_body_def exit_status_def Let_def
      split: sum.splits py_exc.splits option.splits)

theorem main_reports_on_stdout_witness:
  "CodeGenerator_init empty_tree = Inl (ParsingException ''Callbacks are required'') \<and>
   main (\<lambda>INDENT gen. Inr (get_enums_text INDENT gen 2))
     \<lparr>output_file = None, tab_size = 4\<rparr> empty_tree =
     Inr \<lparr>stdout = [''Error: Callbacks are required''], stderr = [], written = None\<rparr>"
proof -
  have h: "CodeGenerator_init empty_tree = Inl (ParsingException ''Callbacks are required'')"
    by (simp add: CodeGenerator_init_def CodeGenerator_init_tree_def empty_tree_def)
  from h main_reports_on_stdout
    [of empty_tree "''Callbacks are required''"
       "\<lambda>INDENT gen. Inr (get_enums_text INDENT gen 2)"
       "\<lparr>output_file = None, tab_size = 4\<rparr>"]
  show ?thesis by simp
qed

text \<open>
  C6 as stated fails: for a tree without \<open>callbacks\<close> the message goes to standard
  output, standard error stays empty and the exit status is 0.
\<close>

theorem main_counterexample:
  "main (\<lambda>INDENT gen. Inr (get_enums_text INDENT gen 2))
     \<lparr>output_file = None, tab_size = 4\<rparr> empty_tree =
     Inr \<lparr>stdout = [''Error: Callbacks are required''], stderr = [], written = None\<rparr> \<and>
   exit_status (main (\<lambda>INDENT gen. Inr (get_enums_text INDENT gen 2))
     \<lparr>output_file = None, tab_size = 4\<rparr> empty_tree) = 0"
  by (simp add: main_def try_body_def CodeGenerator_init_def CodeGenerator_init_tree_def
      empty_tree_def exit_status_def)

section \<open>State names and buffer size on concrete inputs\<close>

text \<open>
  C8 fails on the code.  Two commands that name the same callback give two states called
  \<open>RDY_TO_CALL__ON_A\<close>: the terminal states are appended without going through
  \<open>new_state\<close>, so the state enumeration holds the name twice.
\<close>

theorem shared_callback_duplicate_state_name:
  "map name (states (fst (projr (CodeGenerator_init shared_callback_tree)))) =
     [''DEVICE_ADDRESS'', ''DEVICE_1'', ''DEVICE_1__ON_A__CRC'', ''RDY_TO_CALL__ON_A'',
      ''DEVICE_1__ON_A__CRC_1'', ''RDY_TO_CALL__ON_A'']"
  by code_simp

text \<open>
  C5 fails on the code.  The commands under a key with a hexadecimal address are not
  counted: the buffer size is 4 for a command of 9 bytes of matchers.  The commands added
  for the identification are appended after the size is computed: the buffer size is 4
  again, with a diagnostics command of 5 bytes of matchers.
\<close>

theorem buffer_size_misses_commands:
  "max_buf_size (fst (projr (CodeGenerator_init hex_key_tree))) = 4 \<and>
   map (map sum_sizes \<circ> snd) (tree_entries hex_key_tree) = [[9]] \<and>
   max_buf_size (fst (projr (CodeGenerator_init identified_tree))) = 4 \<and>
   map (map sum_sizes \<circ> snd)
     (tree_entries (snd (projr (CodeGenerator_init identified_tree)))) = [[1, 4, 5]]"
  by code_simp

section \<open>Offsets emitted by \<open>Operation.to_code\<close>\<close>

lemma param0_size:
  "Matcher_init k [AInt 0] None = Inr p0 \<Longrightarrow> k \<noteq> f32 \<and> msize p0 = csize k"
  by (cases k) (auto simp: msize_def)

lemma decoder_access: "decoder (csize k) x = Some (buffer_access (csize k) x)"
  by (cases k) (simp_all add: decoder_def buffer_access_def csize_def)

lemma chain_offset_butlast:
  "j < length chn - 1 \<Longrightarrow> chain_offset (butlast chn) j k = chain_offset chn j k"
  by (simp add: chain_offset_def nth_butlast take_butlast)

lemma to_code_loop_values:
  "to_code_loop nm nargs ix rps chn acc = Inr vs \<Longrightarrow>
   length rps \<le> length chn \<and>
   vs = map (\<lambda>i. buffer_access (csize (param_class (rev rps ! i)))
                (chain_offset chn (length chn - length rps + i) (param_class (rev rps ! i))))
          [0..<length rps] @ acc"
proof (induction rps arbitrary: chn acc ix vs)
  case Nil
  then show ?case by simp
next
  case (Cons prm rest)
  let ?k = "param_class prm"
  from Cons.prems have ne: "chn \<noteq> []"
    by (auto simp: Let_def split: if_splits)
  from Cons.prems ne obtain p0 where p0: "Matcher_init ?k [AInt 0] None = Inr p0"
    by (auto simp: Let_def split: sum.splits)
  from Cons.prems ne p0 obtain ci where ci: "last chn = M ci"
    by (auto simp: Let_def split: item.splits)
  from param0_size [OF p0] have sz: "msize p0 = csize ?k" by simp
  let ?off = "int (sum_sizes (butlast chn)) + (int (msize ci) - int (csize ?k))"
  from Cons.prems ne p0 ci sz
  have rec: "to_code_loop nm nargs (ix + 1) rest (butlast chn)
               (buffer_access (csize ?k) ?off # acc) = Inr vs"
    by (auto simp: Let_def decoder_access split: sum.splits if_splits)
  from Cons.IH [OF rec]
  have len: "length rest \<le> length (butlast chn)"
    and vs: "vs = map (\<lambda>i. buffer_access (csize (param_class (rev rest ! i)))
                (chain_offset (butlast chn) (length (butlast chn) - length rest + i)
                   (param_class (rev rest ! i))))
          [0..<length rest] @ buffer_access (csize ?k) ?off # acc"
    by simp_all
  from len ne have len': "length (prm # rest) \<le> length chn"
    by (cases chn rule: rev_cases) simp_all
  have off: "?off = chain_offset chn (length chn - 1) ?k"
    using ne ci by (simp add: chain_offset_def butlast_conv_take last_conv_nth)
  have "map (\<lambda>i. buffer_access (csize (param_class (rev rest ! i)))
                (chain_offset (butlast chn) (length (butlast chn) - length rest + i)
                   (param_class (rev rest ! i)))) [0..<length rest]
      = map (\<lambda>i. buffer_access (csize (param_class (rev (prm # rest) ! i)))
                (chain_offset chn (length chn - length (prm # rest) + i)
                   (param_class (rev (prm # rest) ! i)))) [0..<length rest]"
    using len ne by (auto simp: nth_append chain_offset_butlast)
  with vs off len' show ?case
    using len ne by (simp add: nth_append)
qed

text \<open>
  C4, as amended.  When \<open>Operation.to_code\<close> returns, the prototype is no longer than the
  chain, the parameter with index \<open>i\<close> is matched against the chain item that stands as far
  from the end of the chain as the parameter from the end of the prototype, and the text
  is the call of the callback on one buffer access per parameter, in the order of the
  prototype.  The offset of an access is the sum of the sizes of the chain items before
  the matched one, plus the size of the matched item, minus the size of the parameter;
  the form of the access is chosen by the size of the parameter.
\<close>

theorem to_code_offsets:
  assumes "Operation_to_code self = Inr text"
  shows "length (prototype self) \<le> length (chain self) \<and>
     text = op_name self @ ''('' @
       join '', ''
         (map (\<lambda>i. buffer_access (csize (param_class (prototype self ! i)))
                 (chain_offset (chain self)
                    (length (chain self) - length (prototype self) + i)
                    (param_class (prototype self ! i))))
            [0..<length (prototype self)]) @ '');''"
proof -
  from assms obtain vs where
    vs: "to_code_loop (op_name self) (length (prototype self)) 0 (rev (prototype self))
           (chain self) [] = Inr vs"
    and tdef: "text = op_name self @ ''('' @ join '', '' vs @ '');''"
    by (auto simp: Operation_to_code_def split: sum.splits)
  from to_code_loop_values [OF vs] tdef show ?thesis by simp
qed

theorem to_code_offsets_witness:
  "Operation_to_code example_operation = Inr ''on_write(buffer[3], ntoh(4));'' \<and>
   length (prototype example_operation) \<le> length (chain example_operation) \<and>
   chain_offset (chain example_operation) 2 u8 = 3 \<and>
   chain_offset (chain example_operation) 3 u16 = 4"
proof -
  have h: "Operation_to_code example_operation = Inr ''on_write(buffer[3], ntoh(4));''"
    by code_simp
  have c: "chain_offset (chain example_operation) 2 u8 = 3 \<and>
           chain_offset (chain example_operation) 3 u16 = 4"
    by code_simp
  from to_code_offsets [OF h] h c show ?thesis by simp
qed

text \<open>
  C4 as stated fails.  For the \<open>u8\<close> parameter matched against a \<open>u16\<close> field that follows
  two bytes, the code emits the offset 3, the last byte of the field; subtracting the
  difference of the widths from the sum 2 gives 1.
\<close>

theorem to_code_offsets_counterexample:
  "Operation_to_code example_operation = Inr ''on_write(buffer[3], ntoh(4));'' \<and>
   stated_offset (chain example_operation) 2 u8 = 1"
  by code_simp

section \<open>The loop of \<open>process_sequence\<close>, one round at a time\<close>

text \<open>
  The position of a matcher plays no part in the comparison of matchers.  A round of the
  loop on a matcher either follows the first transition with an equal matcher, or adds a
  transition to a new state, which is the state before the CRC when a string follows.
\<close>

lemma matcher_eq_pos [simp]: "matcher_eq t (m\<lparr>mpos := x\<rparr>) = matcher_eq t m"
  by (simp add: matcher_eq_def)

lemma State_has_pos [simp]: "State_has st (m\<lparr>mpos := x\<rparr>) = State_has st m"
  by (simp add: State_has_def)

lemma State_get_next_pos [simp]:
  "State_get_next_state_of st (m\<lparr>mpos := x\<rparr>) = State_get_next_state_of st m"
  by (simp add: State_get_next_state_of_def)

lemma loop_descend:
  "State_has (states self ! st) m \<Longrightarrow>
   process_sequence_loop self a st p seen (M m # rest) =
     (case State_get_next_state_of (states self ! st) m of
        Inl e \<Rightarrow> Inl (e, seen @ M (m\<lparr>mpos := Some (p + msize m)\<rparr>) # rest)
      | Inr nxt \<Rightarrow>
          process_sequence_loop self a nxt (p + msize m)
            (seen @ [M (m\<lparr>mpos := Some (p + msize m)\<rparr>)]) rest)"
  by (subst process_sequence_loop.simps) (simp add: Let_def del: process_sequence_loop.simps)

lemma loop_last:
  "\<not> State_has (states self ! st) m \<Longrightarrow>
   process_sequence_loop self a st p seen [M m] =
     Inl (IndexError, seen @ [M (m\<lparr>mpos := Some (p + msize m)\<rparr>)])"
  by (subst process_sequence_loop.simps) (simp add: Let_def del: process_sequence_loop.simps)

lemma loop_insert:
  "\<not> State_has (states self ! st) m \<Longrightarrow>
   process_sequence_loop self a st p seen (M m # M m2 # rest) =
     (case add_state_transition self st (State_next (states self ! st) (malias m))
             (m\<lparr>mpos := Some (p + msize m)\<rparr>) False of
        (self2, nxt) \<Rightarrow>
          process_sequence_loop self2 a nxt (p + msize m)
            (seen @ [M (m\<lparr>mpos := Some (p + msize m)\<rparr>)]) (M m2 # rest))"
  by (subst process_sequence_loop.simps) (simp add: Let_def del: process_sequence_loop.simps)

lemma loop_terminal:
  "\<not> State_has (states self ! st) m \<Longrightarrow>
   process_sequence_loop self a st p seen (M m # S s # rest) =
     (case last (S s # rest) of
        M _ \<Rightarrow> Inl (AttributeError, seen @ M (m\<lparr>mpos := Some (p + msize m)\<rparr>) # S s # rest)
      | S command_name \<Rightarrow>
          (case add_state_transition self st
                  (State_next (states self ! st) (Some (''_'' @ upper command_name @ ''__CRC'')))
                  (m\<lparr>mpos := Some (p + msize m)\<rparr>) True of
             (self2, crc) \<Rightarrow>
               (case make_operation self2 command_name a
                       (seen @ M (m\<lparr>mpos := Some (p + msize m)\<rparr>) # S s # rest) of
                  Inl e \<Rightarrow> Inl (e, seen @ M (m\<lparr>mpos := Some (p + msize m)\<rparr>) # S s # rest)
                | Inr operation \<Rightarrow>
                    Inr (add_operation_state self2 crc command_name operation,
                         seen @ M (m\<lparr>mpos := Some (p + msize m)\<rparr>) # S s # rest))))"
  by (subst process_sequence_loop.simps)
    (simp add: Let_def split: item.splits prod.splits del: process_sequence_loop.simps)

declare process_sequence_loop.simps(3) [simp del]

section \<open>Identification without a product code\<close>

lemma unique_name_ident [simp]:
  "unique_name (self\<lparr>identification := i\<rparr>) n = unique_name self n"
  by (simp add: unique_name_def)

lemma new_state_ident:
  "new_state (self\<lparr>identification := i\<rparr>) n p =
     map_prod (\<lambda>g. g\<lparr>identification := i\<rparr>) id (new_state self n p)"
  by (simp add: new_state_def Let_def)

lemma State_add_ident:
  "State_add (self\<lparr>identification := i\<rparr>) k t = (State_add self k t)\<lparr>identification := i\<rparr>"
  by (simp add: State_add_def)

lemma add_state_transition_ident:
  "add_state_transition (self\<lparr>identification := i\<rparr>) st n m c =
     map_prod (\<lambda>g. g\<lparr>identification := i\<rparr>) id (add_state_transition self st n m c)"
  by (simp add: add_state_transition_def new_state_ident State_add_ident split: prod.splits)

lemma make_operation_ident:
  "make_operation (self\<lparr>identification := i\<rparr>) cn a cmd = make_operation self cn a cmd"
  by (simp add: make_operation_def)

lemma add_operation_state_ident:
  "add_operation_state (self\<lparr>identification := i\<rparr>) crc cn x =
     (add_operation_state self crc cn x)\<lparr>identification := i\<rparr>"
  by (simp add: add_operation_state_def State_add_def Let_def)

lemma loop_ident:
  "process_sequence_loop (self\<lparr>identification := i\<rparr>) a st p seen rest =
     map_sum id (map_prod (\<lambda>g. g\<lparr>identification := i\<rparr>) id)
       (process_sequence_loop self a st p seen rest)"
proof (induction rest arbitrary: self st p seen)
  case Nil
  show ?case by simp
next
  case (Cons x rest)
  show ?case
  proof (cases x)
    case (S s)
    then show ?thesis by simp
  next
    case (M m)
    show ?thesis
    proof (cases "State_has (states self ! st) m")
      case True
      with M Cons.IH show ?thesis by (simp add: loop_descend split: sum.splits)
    next
      case False
      show ?thesis
      proof (cases rest)
        case Nil
        with M False show ?thesis by (simp add: loop_last)
      next
        case (Cons y ys)
        show ?thesis
        proof (cases y)
          case (M m2)
          with \<open>x = M m\<close> False Cons Cons.IH show ?thesis
            by (simp add: loop_insert add_state_transition_ident split: prod.splits)
        next
          case (S s)
          with \<open>x = M m\<close> False Cons show ?thesis
            by (simp add: loop_terminal add_state_transition_ident make_operation_ident
                add_operation_state_ident split: prod.splits item.splits sum.splits)
        qed
      qed
    qed
  qed
qed


lemma process_sequence_ident:
  "process_sequence (self\<lparr>identification := i\<rparr>) a st cmd =
     map_sum id (map_prod (\<lambda>g. g\<lparr>identification := i\<rparr>) id) (process_sequence self a st cmd)"
  by (simp add: process_sequence_def loop_ident split: item.splits sum.splits prod.splits)

lemma process_commands_ident:
  "process_commands (self\<lparr>identification := i\<rparr>) a st cmds =
     map_sum id (map_prod (\<lambda>g. g\<lparr>identification := i\<rparr>) id) (process_commands self a st cmds)"
  by (induction cmds arbitrary: self)
    (auto simp: process_sequence_ident split: sum.splits prod.splits)

lemma process_runtime_device_ident:
  "process_runtime_device (self\<lparr>identification := i\<rparr>) cur v =
     map_sum id (map_prod (\<lambda>g. g\<lparr>identification := i\<rparr>) id)
       (process_runtime_device self cur v)"
  by (simp add: process_runtime_device_def new_state_ident State_add_ident
      process_commands_ident Let_def split: prod.splits)

lemma process_fixed_device_ident:
  "process_fixed_device (self\<lparr>identification := i\<rparr>) cur key v =
     map_sum id (map_prod (\<lambda>g. g\<lparr>identification := i\<rparr>) id)
       (process_fixed_device self cur key v)"
proof (cases "addr_search key")
  case None
  then show ?thesis by (simp add: process_fixed_device_def)
next
  case (Some tx)
  show ?thesis
  proof (cases "py_int0 tx")
    case (Inl e)
    with Some show ?thesis by (simp add: process_fixed_device_def)
  next
    case (Inr d)
    have sw: "new_state (self\<lparr>identification := i, device_address := Some d\<rparr>) n q =
              map_prod (\<lambda>g. g\<lparr>identification := i\<rparr>) id
                (new_state (self\<lparr>device_address := Some d\<rparr>) n q)" for n q
      by (simp add: new_state_def unique_name_def Let_def)
    obtain self1 ds where ns:
      "new_state (self\<lparr>device_address := Some d\<rparr>) (''DEVICE_'' @ str_int d) 1 = (self1, ds)"
      by (cases "new_state (self\<lparr>device_address := Some d\<rparr>) (''DEVICE_'' @ str_int d) 1")
    show ?thesis
    proof (cases "254 < d")
      case True
      with Some Inr show ?thesis by (simp add: process_fixed_device_def)
    next
      case False
      show ?thesis
      proof (cases "Matcher_init u8 [AInt d] (Some (name (states self1 ! ds)))")
        case (Inl e)
        with Some Inr False ns show ?thesis
          by (simp add: process_fixed_device_def sw del: Matcher_init.simps)
      next
        case am: (Inr address_matcher)
        with Some Inr False ns show ?thesis
          by (simp add: process_fixed_device_def sw State_add_ident process_commands_ident
              del: Matcher_init.simps)
      qed
    qed
  qed
qed

lemma process_devices_loop_ident:
  "process_devices_loop (self\<lparr>identification := i\<rparr>) cur store keys =
     map_sum id (map_prod (\<lambda>g. g\<lparr>identification := i\<rparr>) id)
       (process_devices_loop self cur store keys)"
proof (induction keys arbitrary: self store)
  case Nil
  show ?case by simp
next
  case (Cons e keys)
  obtain key d where e: "e = (key, d)" by (cases e)
  let ?r1 = "if key = ''device'' then process_runtime_device self cur (store d)
             else Inr (self, store d)"
  have r1: "(if key = ''device''
             then process_runtime_device (self\<lparr>identification := i\<rparr>) cur (store d)
             else Inr (self\<lparr>identification := i\<rparr>, store d)) =
            map_sum id (map_prod (\<lambda>g. g\<lparr>identification := i\<rparr>) id) ?r1"
    by (simp add: process_runtime_device_ident)
  show ?case
  proof (cases ?r1)
    case (Inl err)
    obtain e1 v1 where "err = (e1, v1)" by (cases err)
    with r1 Inl show ?thesis unfolding e by simp
  next
    case (Inr res1)
    obtain self1 v1 where res1: "res1 = (self1, v1)" by (cases res1)
    let ?r2 = "if startswith key ''device@'' then process_fixed_device self1 cur key v1
               else Inr (self1, v1)"
    have r2: "(if startswith key ''device@''
               then process_fixed_device (self1\<lparr>identification := i\<rparr>) cur key v1
               else Inr (self1\<lparr>identification := i\<rparr>, v1)) =
              map_sum id (map_prod (\<lambda>g. g\<lparr>identification := i\<rparr>) id) ?r2"
      by (simp add: process_fixed_device_ident)
    show ?thesis
    proof (cases ?r2)
      case (Inl err)
      obtain e2 v2 where "err = (e2, v2)" by (cases err)
      with r1 r2 Inr res1 Inl show ?thesis unfolding e by simp
    next
      case r: (Inr res2)
      obtain self2 v2 where res2: "res2 = (self2, v2)" by (cases res2)
      from r1 r2 Inr res1 r res2 show ?thesis
        unfolding e by (simp add: Cons.IH fun_upd_def)
    qed
  qed
qed

lemma process_devices_ident:
  "process_devices (self\<lparr>identification := i\<rparr>) keys store =
     map_sum id (map_prod (\<lambda>g. g\<lparr>identification := i\<rparr>) id)
       (process_devices self keys store)"
  by (simp add: process_devices_def new_state_ident process_devices_loop_ident split: prod.splits)

lemma configure_ident:
  "configure (tr\<lparr>tree_identification := Some ident\<rparr>) cbs =
     map_sum id (\<lambda>g. g\<lparr>identification := ident\<rparr>)
       (configure (tr\<lparr>tree_identification := None\<rparr>) cbs)"
  by (simp add: configure_def tree_entries_def Let_def)

lemma configure_fields:
  "configure tr cbs = Inr g \<Longrightarrow>
     mode g = (case tree_mode tr of None \<Rightarrow> ''slave'' | Some x \<Rightarrow> x) \<and>
     identification g = (case tree_identification tr of None \<Rightarrow> [] | Some i \<Rightarrow> i) \<and>
     slave_id g = (case tree_slave_id tr of None \<Rightarrow> 255 | Some i \<Rightarrow> i) \<and>
     conformity_level g = 0 \<and> states g = [] \<and> callbacks g = cbs"
  by (auto simp: configure_def Let_def split: if_splits)

text \<open>
  C7, as amended.  An identification that does not declare \<open>PRODUCT_CODE\<close> is no error:
  the constructor does exactly what it does for the same tree without the key
  \<open>identification\<close>, with the same result or the same error, and only keeps the mapping
  in the generator.
\<close>

theorem identification_without_product_code:
  assumes "\<not> dict_has ident PRODUCT_CODE"
  shows "CodeGenerator_init (tr\<lparr>tree_identification := Some ident\<rparr>) =
     map_sum id (\<lambda>(g, t). (g\<lparr>identification := ident\<rparr>, t\<lparr>tree_identification := Some ident\<rparr>))
       (CodeGenerator_init (tr\<lparr>tree_identification := None\<rparr>))"
proof (cases "tree_callbacks tr")
  case None
  then show ?thesis by (simp add: CodeGenerator_init_def CodeGenerator_init_tree_def)
next
  case (Some callback_list)
  show ?thesis
  proof (cases "process_callbacks [] callback_list")
    case (Inl e)
    with Some show ?thesis by (simp add: CodeGenerator_init_def CodeGenerator_init_tree_def)
  next
    case (Inr cbs)
    show ?thesis
    proof (cases "configure (tr\<lparr>tree_identification := None\<rparr>) cbs")
      case (Inl e)
      with Some Inr show ?thesis
        by (simp add: CodeGenerator_init_def CodeGenerator_init_tree_def configure_ident)
    next
      case g: (Inr self0)
      from configure_fields [OF g] have i0: "identification self0 = []" by simp
      have no: "\<not> dict_has (identification self0) PRODUCT_CODE"
        by (simp add: i0 dict_has_def)
      show ?thesis
      proof (cases "process_devices self0 (tree_keys tr) (tree_store tr)")
        case (Inl err)
        obtain e store2 where "err = (e, store2)" by (cases err)
        with Some Inr g no assms Inl show ?thesis
          by (simp add: CodeGenerator_init_def CodeGenerator_init_tree_def configure_ident
              process_devices_ident)
      next
        case r: (Inr res)
        obtain self2 store2 where res: "res = (self2, store2)" by (cases res)
        from Some Inr g no assms r res show ?thesis
          by (simp add: CodeGenerator_init_def CodeGenerator_init_tree_def configure_ident
              process_devices_ident)
      qed
    qed
  qed
qed

theorem identification_without_product_code_witness:
  "\<not> dict_has [(0, ''ACME'')] PRODUCT_CODE \<and>
   CodeGenerator_init vendor_only_tree =
     map_sum id (\<lambda>(g, t). (g\<lparr>identification := [(0, ''ACME'')]\<rparr>,
                         t\<lparr>tree_identification := Some [(0, ''ACME'')]\<rparr>))
       (CodeGenerator_init (vendor_only_tree\<lparr>tree_identification := None\<rparr>))"
proof -
  have h: "\<not> dict_has [(0, ''ACME'')] PRODUCT_CODE"
    by (simp add: dict_has_def PRODUCT_CODE_def)
  have t: "vendor_only_tree\<lparr>tree_identification := Some [(0, ''ACME'')]\<rparr> = vendor_only_tree"
    by (simp add: vendor_only_tree_def empty_tree_def with_entries_def)
  from identification_without_product_code [OF h, of vendor_only_tree] h t
  show ?thesis by simp
qed

text \<open>
  C7 as stated fails: with an identification that declares only the vendor name the
  constructor returns a generator, whose conformity level is 0.
\<close>

theorem identification_without_product_code_counterexample:
  "\<not> isl (CodeGenerator_init vendor_only_tree) \<and>
   conformity_level (fst (projr (CodeGenerator_init vendor_only_tree))) = 0"
  by code_simp

section \<open>What building the automaton leaves alone\<close>

text \<open>
  The functions that build the automaton change the list of states and the device
  address of the generator and nothing else.
\<close>

lemma new_state_frame:
  "new_state self n q = (g, k) \<Longrightarrow>
   g\<lparr>states := [], device_address := None\<rparr> = self\<lparr>states := [], device_address := None\<rparr>"
  by (auto simp: new_state_def Let_def)

lemma State_add_frame:
  "(State_add self k t)\<lparr>states := [], device_address := None\<rparr> =
     self\<lparr>states := [], device_address := None\<rparr>"
  by (simp add: State_add_def)

lemma add_state_transition_frame:
  "add_state_transition self st n m c = (g, k) \<Longrightarrow>
   g\<lparr>states := [], device_address := None\<rparr> = self\<lparr>states := [], device_address := None\<rparr>"
  by (auto simp: add_state_transition_def State_add_frame split: prod.splits
      dest: new_state_frame)

lemma add_operation_state_frame:
  "(add_operation_state self crc cn x)\<lparr>states := [], device_address := None\<rparr> =
     self\<lparr>states := [], device_address := None\<rparr>"
  by (simp add: add_operation_state_def State_add_def Let_def)

lemma loop_frame:
  "process_sequence_loop self a st p seen rest = Inr (g, c) \<Longrightarrow>
   g\<lparr>states := [], device_address := None\<rparr> = self\<lparr>states := [], device_address := None\<rparr>"
proof (induction rest arbitrary: self st p seen)
  case Nil
  then show ?case by simp
next
  case (Cons x rest)
  show ?case
  proof (cases x)
    case (S s)
    with Cons.prems show ?thesis by simp
  next
    case (M m)
    show ?thesis
    proof (cases "State_has (states self ! st) m")
      case True
      with M Cons.prems Cons.IH show ?thesis
        by (auto simp: loop_descend split: sum.splits)
    next
      case False
      show ?thesis
      proof (cases rest)
        case Nil
        with M False Cons.prems show ?thesis by (simp add: loop_last)
      next
        case (Cons y ys)
        show ?thesis
        proof (cases y)
          case (M m2)
          obtain self2 nxt where ast: "add_state_transition self st
              (State_next (states self ! st) (malias m))
              (m\<lparr>mpos := Some (p + msize m)\<rparr>) False = (self2, nxt)"
            by (cases "add_state_transition self st
              (State_next (states self ! st) (malias m))
              (m\<lparr>mpos := Some (p + msize m)\<rparr>) False")
          from Cons.prems \<open>x = M m\<close> False Cons M ast
          have "process_sequence_loop self2 a nxt (p + msize m)
                  (seen @ [M (m\<lparr>mpos := Some (p + msize m)\<rparr>)]) rest = Inr (g, c)"
            by (simp add: loop_insert)
          from Cons.IH [OF this] add_state_transition_frame [OF ast] show ?thesis by simp
        next
          case (S s)
          with \<open>x = M m\<close> False Cons Cons.prems show ?thesis
            by (auto simp: loop_terminal add_operation_state_frame
                split: prod.splits item.splits sum.splits dest: add_state_transition_frame)
        qed
      qed
    qed
  qed
qed

lemma process_sequence_frame:
  "process_sequence self a st cmd = Inr (g, c) \<Longrightarrow>
   g\<lparr>states := [], device_address := None\<rparr> = self\<lparr>states := [], device_address := None\<rparr>"
  by (auto simp: process_sequence_def split: if_splits item.splits sum.splits prod.splits
      dest: loop_frame)

lemma process_commands_frame:
  "process_commands self a st cmds = Inr (g, c) \<Longrightarrow>
   g\<lparr>states := [], device_address := None\<rparr> = self\<lparr>states := [], device_address := None\<rparr>"
proof (induction cmds arbitrary: self c)
  case Nil
  then show ?case by simp
next
  case (Cons cmd cmds)
  from Cons.prems obtain self1 c1 cs where
    1: "process_sequence self a st cmd = Inr (self1, c1)" and
    2: "process_commands self1 a st cmds = Inr (g, cs)"
    by (auto split: sum.splits prod.splits)
  from Cons.IH [OF 2] process_sequence_frame [OF 1] show ?case by simp
qed


lemma process_runtime_device_frame:
  "process_runtime_device self cur v = Inr (g, c) \<Longrightarrow>
   g\<lparr>states := [], device_address := None\<rparr> = self\<lparr>states := [], device_address := None\<rparr>"
proof -
  assume r: "process_runtime_device self cur v = Inr (g, c)"
  obtain self1 ds where ns: "new_state self ''DEVICE'' 1 = (self1, ds)"
    by (cases "new_state self ''DEVICE'' 1")
  from r ns obtain t am where "process_commands (State_add self1 cur t) am ds v = Inr (g, c)"
    by (auto simp: process_runtime_device_def Let_def)
  from process_commands_frame [OF this] new_state_frame [OF ns] show ?thesis
    by (simp add: State_add_frame)
qed

lemma process_fixed_device_frame:
  "process_fixed_device self cur key v = Inr (g, c) \<Longrightarrow>
   g\<lparr>states := [], device_address := None\<rparr> = self\<lparr>states := [], device_address := None\<rparr>"
proof -
  assume r: "process_fixed_device self cur key v = Inr (g, c)"
  from r obtain tx where tx: "addr_search key = Some tx"
    by (auto simp: process_fixed_device_def split: option.splits)
  from r tx obtain d where d: "py_int0 tx = Inr d"
    by (auto simp: process_fixed_device_def split: sum.splits)
  obtain self1 ds where ns:
    "new_state (self\<lparr>device_address := Some d\<rparr>) (''DEVICE_'' @ str_int d) 1 = (self1, ds)"
    by (cases "new_state (self\<lparr>device_address := Some d\<rparr>) (''DEVICE_'' @ str_int d) 1")
  from r tx d ns obtain t am where "process_commands (State_add self1 cur t) am ds v = Inr (g, c)"
    by (auto simp: process_fixed_device_def Let_def split: if_splits sum.splits
        simp del: Matcher_init.simps)
  from process_commands_frame [OF this] new_state_frame [OF ns] show ?thesis
    by (simp add: State_add_frame)
qed

lemma process_devices_loop_step:
  assumes "process_devices_loop self cur store ((key, d) # keys) = Inr (g, c)"
  obtains self1 v1 self2 v2 where
    "(if key = ''device'' then process_runtime_device self cur (store d)
      else Inr (self, store d)) = Inr (self1, v1)"
    "(if startswith key ''device@'' then process_fixed_device self1 cur key v1
      else Inr (self1, v1)) = Inr (self2, v2)"
    "process_devices_loop self2 cur (store(d := v2)) keys = Inr (g, c)"
proof -
  let ?r1 = "if key = ''device'' then process_runtime_device self cur (store d)
             else Inr (self, store d)"
  show ?thesis
  proof (cases ?r1)
    case (Inl err)
    obtain e1 v1 where "err = (e1, v1)" by (cases err)
    with assms Inl show ?thesis by simp
  next
    case (Inr res1)
    obtain self1 v1 where res1: "res1 = (self1, v1)" by (cases res1)
    let ?r2 = "if startswith key ''device@'' then process_fixed_device self1 cur key v1
               else Inr (self1, v1)"
    show ?thesis
    proof (cases ?r2)
      case (Inl err)
      obtain e2 v2 where "err = (e2, v2)" by (cases err)
      with assms Inr res1 Inl show ?thesis by simp
    next
      case r: (Inr res2)
      obtain self2 v2 where res2: "res2 = (self2, v2)" by (cases res2)
      from assms Inr res1 r res2
      have "process_devices_loop self2 cur (store(d := v2)) keys = Inr (g, c)" by simp
      with Inr res1 r res2 that show ?thesis by simp
    qed
  qed
qed

lemma process_devices_loop_frame:
  "process_devices_loop self cur store keys = Inr (g, c) \<Longrightarrow>
   g\<lparr>states := [], device_address := None\<rparr> = self\<lparr>states := [], device_address := None\<rparr>"
proof (induction keys arbitrary: self store)
  case Nil
  then show ?case by simp
next
  case (Cons e keys)
  obtain key d where e: "e = (key, d)" by (cases e)
  from Cons.prems obtain self1 v1 self2 v2 where
    1: "(if key = ''device'' then process_runtime_device self cur (store d)
         else Inr (self, store d)) = Inr (self1, v1)" and
    2: "(if startswith key ''device@'' then process_fixed_device self1 cur key v1
         else Inr (self1, v1)) = Inr (self2, v2)" and
    3: "process_devices_loop self2 cur (store(d := v2)) keys = Inr (g, c)"
    unfolding e by (rule process_devices_loop_step)
  from 1 have f1: "self1\<lparr>states := [], device_address := None\<rparr> =
      self\<lparr>states := [], device_address := None\<rparr>"
    by (auto split: if_splits dest: process_runtime_device_frame)
  from 2 have f2: "self2\<lparr>states := [], device_address := None\<rparr> =
      self1\<lparr>states := [], device_address := None\<rparr>"
    by (auto split: if_splits dest: process_fixed_device_frame)
  from Cons.IH [OF 3] f1 f2 show ?case by simp
qed

lemma process_devices_frame:
  "process_devices self keys store = Inr (g, c) \<Longrightarrow>
   g\<lparr>states := [], device_address := None\<rparr> = self\<lparr>states := [], device_address := None\<rparr>"
proof -
  assume r: "process_devices self keys store = Inr (g, c)"
  obtain self1 cur where ns: "new_state self ''DEVICE_ADDRESS'' 0 = (self1, cur)"
    by (cases "new_state self ''DEVICE_ADDRESS'' 0")
  from r ns have "process_devices_loop self1 cur store keys = Inr (g, c)"
    by (simp add: process_devices_def)
  from process_devices_loop_frame [OF this] new_state_frame [OF ns] show ?thesis by simp
qed

lemma frame_fields:
  "g\<lparr>states := [], device_address := None\<rparr> = self\<lparr>states := [], device_address := None\<rparr> \<Longrightarrow>
   identification g = identification self \<and> slave_id g = slave_id self \<and>
   conformity_level g = conformity_level self \<and> callbacks g = callbacks self \<and>
   mode g = mode self \<and> max_buf_size g = max_buf_size self"
proof -
  assume eq: "g\<lparr>states := [], device_address := None\<rparr> =
              self\<lparr>states := [], device_address := None\<rparr>"
  have "identification g = identification (g\<lparr>states := [], device_address := None\<rparr>)" by simp
  moreover have "slave_id g = slave_id (g\<lparr>states := [], device_address := None\<rparr>)" by simp
  moreover have "conformity_level g = conformity_level (g\<lparr>states := [], device_address := None\<rparr>)"
    by simp
  moreover have "callbacks g = callbacks (g\<lparr>states := [], device_address := None\<rparr>)" by simp
  moreover have "mode g = mode (g\<lparr>states := [], device_address := None\<rparr>)" by simp
  moreover have "max_buf_size g = max_buf_size (g\<lparr>states := [], device_address := None\<rparr>)"
    by simp
  ultimately show ?thesis unfolding eq by simp
qed

lemma identification_loop_level:
  "identification_loop md l ks = Inr r \<Longrightarrow>
   l \<le> r \<and> (\<forall>k\<in>set ks. \<exists>c. MEI_OBJECT_CATEGORY k = Some c \<and> c \<le> r)"
proof (induction ks arbitrary: l)
  case Nil
  then show ?case by simp
next
  case (Cons k ks)
  from Cons.prems obtain c where c: "MEI_OBJECT_CATEGORY k = Some c"
    and rec: "identification_loop md (max l c) ks = Inr r"
    by (auto split: option.splits)
  from Cons.IH [OF rec] c show ?case by auto
qed

lemma inject_identification_fields:
  assumes "inject_identification self keys store = Inr (g, e3)"
    and "dict_has (identification self) PRODUCT_CODE"
    and "0 \<le> conformity_level self"
  shows "identification g = identification self \<and> slave_id g = slave_id self \<and>
     0 < conformity_level g"
proof -
  from assms(1) obtain level where
    lv: "identification_loop (mode self) (conformity_level self)
           (map fst (identification self)) = Inr level"
    and g: "identification g = identification self \<and> slave_id g = slave_id self \<and>
            conformity_level g = level"
    by (auto simp: inject_identification_def Let_def split: sum.splits)
  from assms(2) have "PRODUCT_CODE \<in> set (map fst (identification self))"
    by (simp add: dict_has_def)
  with identification_loop_level [OF lv] obtain c where
    "MEI_OBJECT_CATEGORY PRODUCT_CODE = Some c" "c \<le> level"
    by blast
  then have "1 \<le> level" by (simp add: MEI_OBJECT_CATEGORY_def PRODUCT_CODE_def)
  with g show ?thesis by simp
qed

lemma init_stages:
  assumes "CodeGenerator_init tr = Inr (g, tr')"
  obtains callback_list cbs self0 self1 store1 store2 where
    "tree_callbacks tr = Some callback_list"
    "process_callbacks [] callback_list = Inr cbs"
    "configure tr cbs = Inr self0"
    "(if mode self0 = ''slave'' \<and> dict_has (identification self0) PRODUCT_CODE
      then inject_identification self0 (tree_keys tr) (tree_store tr)
      else Inr (self0, tree_store tr)) = Inr (self1, store1)"
    "process_devices self1 (tree_keys tr) store1 = Inr (g, store2)"
    "tr' = tr\<lparr>tree_store := store2\<rparr>"
proof -
  from assms obtain callback_list where 1: "tree_callbacks tr = Some callback_list"
    by (auto simp: CodeGenerator_init_def CodeGenerator_init_tree_def split: option.splits)
  from assms 1 obtain cbs where 2: "process_callbacks [] callback_list = Inr cbs"
    by (auto simp: CodeGenerator_init_def CodeGenerator_init_tree_def split: sum.splits)
  from assms 1 2 obtain self0 where 3: "configure tr cbs = Inr self0"
    by (auto simp: CodeGenerator_init_def CodeGenerator_init_tree_def split: sum.splits)
  let ?r1 = "if mode self0 = ''slave'' \<and> dict_has (identification self0) PRODUCT_CODE
      then inject_identification self0 (tree_keys tr) (tree_store tr)
      else Inr (self0, tree_store tr)"
  from assms 1 2 3 obtain self1 store1 where 4: "?r1 = Inr (self1, store1)"
    by (cases ?r1) (auto simp: CodeGenerator_init_def CodeGenerator_init_tree_def)
  from assms 1 2 3 4 obtain store2 where
    5: "process_devices self1 (tree_keys tr) store1 = Inr (g, store2)"
    and 6: "tr' = tr\<lparr>tree_store := store2\<rparr>"
    by (cases "process_devices self1 (tree_keys tr) store1")
      (auto simp: CodeGenerator_init_def CodeGenerator_init_tree_def)
  from 1 2 3 4 5 6 that show ?thesis by blast
qed

section \<open>The reply to Report Slave ID\<close>

text \<open>
  C9.  For a generator built in slave mode from a tree whose identification declares a
  product code, the routine emitted for function 17 packs, in this order, the byte count
  2 plus the length of the identifier, the slave id of the tree (255 when the tree gives
  none), the constant \<open>0xFF\<close> and the identifier; the identifier is the product code,
  followed by an underscore and the model name exactly when a model name is declared.
\<close>

theorem report_slave_id_reply:
  assumes "CodeGenerator_init tr = Inr (g, tr')"
    and "tree_mode tr = None \<or> tree_mode tr = Some ''slave''"
    and "tree_identification tr = Some ident"
    and "map_of ident PRODUCT_CODE = Some product_code"
    and "identifier = (case map_of ident MODEL_NAME of
                         None \<Rightarrow> product_code
                       | Some model_name \<Rightarrow> product_code @ ''_'' @ model_name)"
  shows "get_report_slave_id_function INDENT g level =
     Inr (join (rep_str INDENT level)
       [[],
        newline @ ''/** Answer command 17 - Report slave id */'' @ newline,
        ''inline void on_report_slave_id() {'' @ newline,
        ''    Datagram::set_size(2); // Reset the count to 2 (ID + code)'' @ newline,
        ''    Datagram::pack<uint8_t>('' @ str_int (2 + int (length identifier)) @
          ''); // Byte count'' @ newline,
        ''    Datagram::pack<uint8_t>('' @
          str_int (case tree_slave_id tr of None \<Rightarrow> 255 | Some i \<Rightarrow> i) @
          ''); // slave ID'' @ newline,
        ''    Datagram::pack<uint8_t>(0xFF); // Status OK'' @ newline,
        ''    Datagram::pack('' @ dquote @ identifier @ dquote @ ''); // Function code'' @ newline,
        ''}''])"
proof -
  from assms(1) obtain callback_list cbs self0 self1 store1 store2 where
    cfg: "configure tr cbs = Inr self0"
    and inj: "(if mode self0 = ''slave'' \<and> dict_has (identification self0) PRODUCT_CODE
      then inject_identification self0 (tree_keys tr) (tree_store tr)
      else Inr (self0, tree_store tr)) = Inr (self1, store1)"
    and dev: "process_devices self1 (tree_keys tr) store1 = Inr (g, store2)"
    by (rule init_stages)
  from configure_fields [OF cfg] assms(2,3)
  have m0: "mode self0 = ''slave''" and i0: "identification self0 = ident"
    and s0: "slave_id self0 = (case tree_slave_id tr of None \<Rightarrow> 255 | Some i \<Rightarrow> i)"
    and c0: "conformity_level self0 = 0"
    by auto
  from assms(4) have has: "dict_has ident PRODUCT_CODE"
    by (auto simp: dict_has_def dest: map_of_SomeD intro: rev_image_eqI)
  from inj m0 i0 has
  have "inject_identification self0 (tree_keys tr) (tree_store tr) = Inr (self1, store1)"
    by simp
  from inject_identification_fields [OF this] i0 has c0
  have f1: "identification self1 = ident" "slave_id self1 = slave_id self0"
    "0 < conformity_level self1"
    by simp_all
  from frame_fields [OF process_devices_frame [OF dev]] f1 s0
  have "identification g = ident"
    "slave_id g = (case tree_slave_id tr of None \<Rightarrow> 255 | Some i \<Rightarrow> i)"
    "conformity_level g \<noteq> 0"
    by simp_all
  with assms(4,5) show ?thesis
    by (simp add: get_report_slave_id_function_def Let_def add.commute split: option.splits)
qed

theorem report_slave_id_reply_witness:
  "\<not> isl (CodeGenerator_init identified_tree) \<and>
   get_report_slave_id_function ''    '' (fst (projr (CodeGenerator_init identified_tree))) 1 =
     Inr (join ''    ''
       [[],
        newline @ ''/** Answer command 17 - Report slave id */'' @ newline,
        ''inline void on_report_slave_id() {'' @ newline,
        ''    Datagram::set_size(2); // Reset the count to 2 (ID + code)'' @ newline,
        ''    Datagram::pack<uint8_t>(7); // Byte count'' @ newline,
        ''    Datagram::pack<uint8_t>(255); // slave ID'' @ newline,
        ''    Datagram::pack<uint8_t>(0xFF); // Status OK'' @ newline,
        ''    Datagram::pack('' @ dquote @ ''PC_MX'' @ dquote @ ''); // Function code'' @ newline,
        ''}''])"
proof -
  have ok: "\<not> isl (CodeGenerator_init identified_tree)"
    by code_simp
  then have eq: "CodeGenerator_init identified_tree =
      Inr (fst (projr (CodeGenerator_init identified_tree)),
           snd (projr (CodeGenerator_init identified_tree)))"
    by (cases "CodeGenerator_init identified_tree") simp_all
  have md: "tree_mode identified_tree = None \<or> tree_mode identified_tree = Some ''slave''"
    by (simp add: identified_tree_def empty_tree_def with_entries_def)
  have ident: "tree_identification identified_tree = Some [(1, ''PC''), (5, ''MX'')]"
    by (simp add: identified_tree_def empty_tree_def with_entries_def)
  have pc: "map_of [(1, ''PC''), (5, ''MX'')] PRODUCT_CODE = Some ''PC''"
    by (simp add: PRODUCT_CODE_def)
  have mn: "''PC_MX'' = (case map_of [(1, ''PC''), (5, ''MX'')] MODEL_NAME of
                          None \<Rightarrow> ''PC''
                        | Some model_name \<Rightarrow> ''PC'' @ ''_'' @ model_name)"
    by (simp add: MODEL_NAME_def)
  have n7: "str_int (2 + int (length ''PC_MX'')) = ''7''"
    by code_simp
  have n255: "str_int 255 = ''255''"
    by code_simp
  have sl: "tree_slave_id identified_tree = None"
    by (simp add: identified_tree_def empty_tree_def with_entries_def)
  have ind: "rep_str ''    '' 1 = ''    ''"
    by (simp add: rep_str_def)
  from report_slave_id_reply [OF eq md ident pc mn, of "''    ''" 1] ok
  show ?thesis
    unfolding n7 sl ind by (simp add: n255)
qed

section \<open>What the constructor does to the tree\<close>

text \<open>
  Each function of the construction returns the commands it was given with other
  positions at most, whether it returns or raises.
\<close>

lemma erase_pos_set [simp]: "erase_pos (M (m\<lparr>mpos := x\<rparr>)) = erase_pos (M m)"
  by simp

lemma loop_erase:
  "map erase_pos (case_sum snd snd (process_sequence_loop self a st p seen rest)) =
     map erase_pos (seen @ rest)"
proof (induction rest arbitrary: self st p seen)
  case Nil
  show ?case by simp
next
  case (Cons x rest)
  note IH = Cons.IH
  show ?case
  proof (cases x)
    case (S s)
    then show ?thesis by simp
  next
    case (M m)
    show ?thesis
    proof (cases "State_has (states self ! st) m")
      case True
      show ?thesis
      proof (cases "State_get_next_state_of (states self ! st) m")
        case (Inl e)
        with M True show ?thesis by (simp add: loop_descend)
      next
        case (Inr nxt)
        with M True IH [of self nxt "p + msize m" "seen @ [M (m\<lparr>mpos := Some (p + msize m)\<rparr>)]"]
        show ?thesis by (simp add: loop_descend)
      qed
    next
      case False
      show ?thesis
      proof (cases rest)
        case Nil
        with M False show ?thesis by (simp add: loop_last)
      next
        case (Cons y ys)
        show ?thesis
        proof (cases y)
          case (M m2)
          obtain self2 nxt where ast: "add_state_transition self st
              (State_next (states self ! st) (malias m))
              (m\<lparr>mpos := Some (p + msize m)\<rparr>) False = (self2, nxt)"
            by (cases "add_state_transition self st
              (State_next (states self ! st) (malias m))
              (m\<lparr>mpos := Some (p + msize m)\<rparr>) False")
          from \<open>x = M m\<close> False Cons M ast
            IH [of self2 nxt "p + msize m" "seen @ [M (m\<lparr>mpos := Some (p + msize m)\<rparr>)]"]
          show ?thesis by (simp add: loop_insert)
        next
          case (S s)
          with \<open>x = M m\<close> False Cons show ?thesis
            by (simp add: loop_terminal split: prod.splits item.splits sum.splits)
        qed
      qed
    qed
  qed
qed

lemma process_sequence_erase:
  "map erase_pos (case_sum snd snd (process_sequence self a st cmd)) = map erase_pos cmd"
proof (cases "cmd = []")
  case True
  then show ?thesis by (simp add: process_sequence_def)
next
  case ne: False
  show ?thesis
  proof (cases "last cmd")
    case (S cb)
    with ne loop_erase [of self a st 1 "[]" cmd] show ?thesis
      by (simp add: process_sequence_def)
  next
    case (M m)
    let ?r = "process_sequence_loop self a st 1 [] (cmd @ [S ''NOTHING''])"
    from loop_erase [of self a st 1 "[]" "cmd @ [S ''NOTHING'']"]
    have "map erase_pos (case_sum snd snd ?r) = map erase_pos cmd @ [S ''NOTHING'']"
      by simp
    then have "take (length cmd) (map erase_pos (case_sum snd snd ?r)) = map erase_pos cmd"
      by simp
    then have t: "map erase_pos (take (length cmd) (case_sum snd snd ?r)) = map erase_pos cmd"
      by (simp add: take_map)
    show ?thesis
    proof (cases ?r)
      case (Inl err)
      obtain e c where "err = (e, c)" by (cases err)
      with ne M Inl t show ?thesis by (simp add: process_sequence_def)
    next
      case (Inr res)
      obtain g c where "res = (g, c)" by (cases res)
      with ne M Inr t show ?thesis by (simp add: process_sequence_def)
    qed
  qed
qed

lemma process_commands_erase:
  "erase_positions (case_sum snd snd (process_commands self a st cmds)) = erase_positions cmds"
proof (induction cmds arbitrary: self)
  case Nil
  show ?case by simp
next
  case (Cons cmd cmds)
  show ?case
  proof (cases "process_sequence self a st cmd")
    case (Inl err)
    obtain e c where "err = (e, c)" by (cases err)
    with Inl process_sequence_erase [of self a st cmd] show ?thesis
      by (simp add: erase_positions_def)
  next
    case (Inr res)
    obtain self1 c1 where res: "res = (self1, c1)" by (cases res)
    from Inr res process_sequence_erase [of self a st cmd]
    have c1: "map erase_pos c1 = map erase_pos cmd" by simp
    show ?thesis
    proof (cases "process_commands self1 a st cmds")
      case (Inl err)
      obtain e cs where "err = (e, cs)" by (cases err)
      with Inl Inr res c1 Cons.IH [of self1] show ?thesis
        by (simp add: erase_positions_def)
    next
      case r: (Inr res2)
      obtain g cs where "res2 = (g, cs)" by (cases res2)
      with r Inr res c1 Cons.IH [of self1] show ?thesis
        by (simp add: erase_positions_def)
    qed
  qed
qed

lemma process_runtime_device_erase:
  "erase_positions (case_sum snd snd (process_runtime_device self cur v)) = erase_positions v"
  by (simp add: process_runtime_device_def Let_def process_commands_erase split: prod.splits)

lemma process_commands_erase_Inl:
  "process_commands self a st cmds = Inl (e, cs) \<Longrightarrow> erase_positions cs = erase_positions cmds"
  using process_commands_erase [of self a st cmds] by simp

lemma process_commands_erase_Inr:
  "process_commands self a st cmds = Inr (g, cs) \<Longrightarrow> erase_positions cs = erase_positions cmds"
  using process_commands_erase [of self a st cmds] by simp

lemma process_fixed_device_erase:
  "erase_positions (case_sum snd snd (process_fixed_device self cur key v)) = erase_positions v"
  by (auto simp: process_fixed_device_def Let_def
      split: option.splits sum.splits prod.splits simp del: Matcher_init.simps
      dest: process_commands_erase_Inl process_commands_erase_Inr)

lemma process_devices_loop_erase:
  "erase_positions (case_sum snd snd (process_devices_loop self cur store keys) device) =
     erase_positions (store device)"
proof (induction keys arbitrary: self store)
  case Nil
  show ?case by simp
next
  case (Cons e keys)
  obtain key d where e: "e = (key, d)" by (cases e)
  let ?r1 = "if key = ''device'' then process_runtime_device self cur (store d)
             else Inr (self, store d)"
  have e1: "erase_positions (case_sum snd snd ?r1) = erase_positions (store d)"
    by (simp add: process_runtime_device_erase)
  show ?case
  proof (cases ?r1)
    case (Inl err)
    obtain e1 v1 where "err = (e1, v1)" by (cases err)
    with Inl e1 show ?thesis unfolding e by simp
  next
    case (Inr res1)
    obtain self1 v1 where res1: "res1 = (self1, v1)" by (cases res1)
    let ?r2 = "if startswith key ''device@'' then process_fixed_device self1 cur key v1
               else Inr (self1, v1)"
    have e2: "erase_positions (case_sum snd snd ?r2) = erase_positions v1"
      by (simp add: process_fixed_device_erase)
    show ?thesis
    proof (cases ?r2)
      case (Inl err)
      obtain e2 v2 where "err = (e2, v2)" by (cases err)
      with Inl Inr res1 e1 e2 show ?thesis unfolding e by simp
    next
      case r: (Inr res2)
      obtain self2 v2 where res2: "res2 = (self2, v2)" by (cases res2)
      from r Inr res1 res2 e1 e2 Cons.IH [of self2 "store(d := v2)"]
      show ?thesis unfolding e by (simp add: fun_upd_def)
    qed
  qed
qed

lemma process_devices_erase:
  "erase_positions (case_sum snd snd (process_devices self keys store) device) =
     erase_positions (store device)"
  by (simp add: process_devices_def process_devices_loop_erase split: prod.splits)

text \<open>
  The identification block appends to the list of the chosen device and to no other
  list: all three commands when it returns, none or the first when it raises.
\<close>

lemma inject_identification_store:
  "\<exists>n. (n = 0 \<or> n = 1 \<or> n = 3) \<and>
     (\<not> isl (inject_identification self keys store) \<longrightarrow> n = 3) \<and>
     case_sum snd snd (inject_identification self keys store) =
       (\<lambda>device. store device @
          (if identification_device keys = Inr device then take n identification_commands
           else []))"
proof (cases "identification_device keys")
  case (Inl e)
  then have "case_sum snd snd (inject_identification self keys store) =
      (\<lambda>device. store device @
         (if identification_device keys = Inr device then take 0 identification_commands
          else []))"
    by (simp add: inject_identification_def)
  moreover from Inl have "isl (inject_identification self keys store)"
    by (simp add: inject_identification_def)
  ultimately show ?thesis by blast
next
  case (Inr d)
  let ?l = "identification_loop (mode self) (conformity_level self)
              (map fst (identification self))"
  show ?thesis
  proof (cases ?l)
    case (Inl e)
    with Inr have "case_sum snd snd (inject_identification self keys store) =
        (\<lambda>device. store device @
           (if identification_device keys = Inr device then take 1 identification_commands
            else []))"
      by (auto simp: inject_identification_def Let_def device_append_def
          identification_commands_def)
    moreover from Inr Inl have "isl (inject_identification self keys store)"
      by (simp add: inject_identification_def Let_def)
    ultimately show ?thesis by blast
  next
    case l: (Inr level)
    with Inr have "case_sum snd snd (inject_identification self keys store) =
        (\<lambda>device. store device @
           (if identification_device keys = Inr device then take 3 identification_commands
            else []))"
      by (auto simp: inject_identification_def Let_def device_append_def
          identification_commands_def)
    then show ?thesis by blast
  qed
qed

text \<open>
  C10, as amended.  The constructor is not pure: it changes the command lists and the
  matchers of the tree it is given.  Whether it returns or raises, every list object of
  the tree holds afterwards the commands it held, in their order, whose matchers differ
  from the given ones in their position at most.  The list object of the chosen device,
  which is the value of the first key that starts with \<open>device@\<close> or else of the key
  \<open>device\<close>, and with it every key that holds this object, holds after them the
  identification commands that were appended when the identification is active, which
  is in slave mode with \<open>PRODUCT_CODE\<close> declared: all three when the constructor returns,
  and none, the first or all three when it raises.
\<close>

theorem construction_changes_the_tree:
  "\<exists>n. (n = 0 \<or> n = 1 \<or> n = 3) \<and>
     (\<not> isl (CodeGenerator_init_tree tr) \<longrightarrow> n = 3) \<and>
     (\<forall>device.
        erase_positions (tree_store (tree_after (CodeGenerator_init_tree tr)) device) =
        erase_positions (tree_store tr device @
          (if identification_active tr \<and> identification_device (tree_keys tr) = Inr device
           then take n identification_commands else [])))"
proof -
  let ?goal = "\<lambda>n. (n = 0 \<or> n = 1 \<or> n = 3) \<and>
     (\<not> isl (CodeGenerator_init_tree tr) \<longrightarrow> n = 3) \<and>
     (\<forall>device.
        erase_positions (tree_store (tree_after (CodeGenerator_init_tree tr)) device) =
        erase_positions (tree_store tr device @
          (if identification_active tr \<and> identification_device (tree_keys tr) = Inr device
           then take n identification_commands else [])))"
  show ?thesis
  proof (cases "tree_callbacks tr")
    case None
    then have "?goal 0" by (simp add: CodeGenerator_init_tree_def tree_after_def)
    then show ?thesis ..
  next
    case (Some callback_list)
    show ?thesis
    proof (cases "process_callbacks [] callback_list")
      case (Inl e)
      with Some have "?goal 0" by (simp add: CodeGenerator_init_tree_def tree_after_def)
      then show ?thesis ..
    next
      case (Inr cbs)
      show ?thesis
      proof (cases "configure tr cbs")
        case (Inl e)
        with Some Inr have "?goal 0" by (simp add: CodeGenerator_init_tree_def tree_after_def)
        then show ?thesis ..
      next
        case cfg: (Inr self0)
        from configure_fields [OF cfg]
        have act: "(mode self0 = ''slave'' \<and> dict_has (identification self0) PRODUCT_CODE) =
                   identification_active tr"
          by (simp add: identification_active_def)
        let ?r1 = "if identification_active tr
                   then inject_identification self0 (tree_keys tr) (tree_store tr)
                   else Inr (self0, tree_store tr)"
        have "\<exists>n. (n = 0 \<or> n = 1 \<or> n = 3) \<and> (\<not> isl ?r1 \<longrightarrow> n = 3) \<and>
            case_sum snd snd ?r1 =
              (\<lambda>device. tree_store tr device @
                 (if identification_active tr \<and>
                     identification_device (tree_keys tr) = Inr device
                  then take n identification_commands else []))"
        proof (cases "identification_active tr")
          case True
          with inject_identification_store [of self0 "tree_keys tr" "tree_store tr"]
          show ?thesis by simp
        next
          case False
          then have "(3 = 0 \<or> 3 = 1 \<or> 3 = (3::nat)) \<and> (\<not> isl ?r1 \<longrightarrow> 3 = (3::nat)) \<and>
            case_sum snd snd ?r1 =
              (\<lambda>device. tree_store tr device @
                 (if identification_active tr \<and>
                     identification_device (tree_keys tr) = Inr device
                  then take 3 identification_commands else []))"
            by simp
          then show ?thesis by blast
        qed
        then obtain n where n: "n = 0 \<or> n = 1 \<or> n = 3"
          and ret: "\<not> isl ?r1 \<longrightarrow> n = 3"
          and st1: "case_sum snd snd ?r1 =
              (\<lambda>device. tree_store tr device @
                 (if identification_active tr \<and>
                     identification_device (tree_keys tr) = Inr device
                  then take n identification_commands else []))"
          by blast
        show ?thesis
        proof (cases ?r1)
          case (Inl err)
          obtain e store1 where err: "err = (e, store1)" by (cases err)
          from Some Inr cfg act Inl err
          have "CodeGenerator_init_tree tr = Inl (e, tr\<lparr>tree_store := store1\<rparr>)"
            by (simp add: CodeGenerator_init_tree_def)
          with n st1 Inl err have "?goal n" by (simp add: tree_after_def)
          then show ?thesis ..
        next
          case r1: (Inr res1)
          obtain self1 store1 where res1: "res1 = (self1, store1)" by (cases res1)
          from r1 ret have n3: "n = 3" by simp
          from st1 r1 res1 have s1: "store1 =
              (\<lambda>device. tree_store tr device @
                 (if identification_active tr \<and>
                     identification_device (tree_keys tr) = Inr device
                  then take n identification_commands else []))"
            by simp
          let ?r2 = "process_devices self1 (tree_keys tr) store1"
          have e2: "erase_positions (case_sum snd snd ?r2 device) =
              erase_positions (store1 device)" for device
            by (rule process_devices_erase)
          have ta: "tree_store (tree_after (CodeGenerator_init_tree tr)) =
              case_sum snd snd ?r2"
          proof (cases ?r2)
            case (Inl err)
            obtain e store2 where "err = (e, store2)" by (cases err)
            with Some Inr cfg act r1 res1 Inl show ?thesis
              by (simp add: CodeGenerator_init_tree_def tree_after_def)
          next
            case r2: (Inr res2)
            obtain g store2 where "res2 = (g, store2)" by (cases res2)
            with Some Inr cfg act r1 res1 r2 show ?thesis
              by (simp add: CodeGenerator_init_tree_def tree_after_def)
          qed
          from n n3 e2 have "?goal n" unfolding ta s1 by simp
          then show ?thesis ..
        qed
      qed
    qed
  qed
qed

text \<open>
  Two keys that hold one list object, in a tree with an active identification; and a
  tree whose identification declares, after the product code, the object code 7, which
  \<open>MEI_OBJECT_CATEGORY\<close> does not know.
\<close>

theorem construction_changes_the_tree_witness:
  "\<not> isl (CodeGenerator_init_tree shared_list_tree) \<and>
   identification_active shared_list_tree \<and>
   identification_device (tree_keys shared_list_tree) = Inr 0 \<and>
   erase_positions
     (tree_store (tree_after (CodeGenerator_init_tree shared_list_tree)) 0) =
     erase_positions (tree_store shared_list_tree 0 @ identification_commands) \<and>
   map snd (tree_keys shared_list_tree) = [0, 0]"
proof -
  have ok: "\<not> isl (CodeGenerator_init_tree shared_list_tree)"
    by code_simp
  have act: "identification_active shared_list_tree"
    by code_simp
  have dev: "identification_device (tree_keys shared_list_tree) = Inr 0"
    by code_simp
  have keys: "map snd (tree_keys shared_list_tree) = [0, 0]"
    by code_simp
  have t: "take 3 identification_commands = identification_commands"
    by (simp add: identification_commands_def)
  from construction_changes_the_tree [of shared_list_tree] ok act dev keys t
  show ?thesis by auto
qed

text \<open>
  C10 as stated fails.  After the construction the matcher of the only command of a tree
  carries the position 2, which it did not have; the device list of a tree with an
  active identification, empty before, holds three commands; when two keys hold that
  list, both show the three commands; and when the constructor raises on the object
  code 7, the list is left with the first of them.
\<close>

theorem construction_changes_the_tree_counterexample:
  "tree_entries single_tree = [(''device@1'', [[M (mk u8 (IntV 5)), S ''on_a'']])] \<and>
   tree_entries (snd (projr (CodeGenerator_init single_tree))) =
     [(''device@1'', [[M ((mk u8 (IntV 5))\<lparr>mpos := Some 2\<rparr>), S ''on_a'']])] \<and>
   map (length \<circ> snd) (tree_entries identified_tree) = [0] \<and>
   map (length \<circ> snd) (tree_entries (snd (projr (CodeGenerator_init identified_tree)))) = [3] \<and>
   map (length \<circ> snd) (tree_entries shared_list_tree) = [0, 0] \<and>
   map (length \<circ> snd) (tree_entries (snd (projr (CodeGenerator_init shared_list_tree)))) =
     [3, 3] \<and>
   isl (CodeGenerator_init unknown_object_tree) \<and>
   projl (CodeGenerator_init unknown_object_tree) =
     ParsingException ''Invalid identification key 7 in slave mode'' \<and>
   map (length \<circ> snd) (tree_entries unknown_object_tree) = [0] \<and>
   tree_entries (tree_after (CodeGenerator_init_tree unknown_object_tree)) =
     [(''device@1'', [report_slave_id_command])]"
  by code_simp

section \<open>Shared prefixes\<close>

text \<open>
  The loop of \<open>process_sequence\<close> keeps the automaton a trie: transitions lead to states
  created later and the transitions of a device state carry pairwise different matchers,
  because a transition is added only when \<open>State.has\<close> finds no structurally equal one
  (lemmas \<open>loop_descend\<close>, \<open>loop_insert\<close> and \<open>loop_terminal\<close>).  Once a command is
  processed, its leading matchers have exactly one path from the device state, and the
  commands processed later keep it.
\<close>

lemma matcher_eq_key: "matcher_eq a b = (key_of a = key_of b)"
  by (auto simp: matcher_eq_def key_of_def)

lemma key_of_pos [simp]: "key_of (m\<lparr>mpos := x\<rparr>) = key_of m"
  by (simp add: key_of_def)

lemma State_has_key:
  "State_has s m = (key_of m \<in> set (map (key_of \<circ> t_matcher) (transition s)))"
  unfolding State_has_def matcher_eq_key find_None_iff
  by (simp add: image_iff) metis

lemma filter_distinct_key:
  "distinct (map f ts) \<Longrightarrow> length (filter (\<lambda>t. f t = k) ts) \<le> 1"
  by (induction ts) (auto simp: filter_empty_conv image_iff)

lemma grows_refl [simp]: "grows ss ss"
  by (simp add: grows_def)

lemma grows_trans: "grows a b \<Longrightarrow> grows b c \<Longrightarrow> grows a c"
proof -
  assume ab: "grows a b" and bc: "grows b c"
  have "take (length (transition (a ! i))) (transition (c ! i)) = transition (a ! i)"
    if i: "i < length a" for i
  proof -
    from ab i have 1: "take (length (transition (a ! i))) (transition (b ! i)) = transition (a ! i)"
      and ib: "i < length b" by (auto simp: grows_def)
    from bc ib have 2: "take (length (transition (b ! i))) (transition (c ! i)) = transition (b ! i)"
      by (auto simp: grows_def)
    from 1 have le: "length (transition (a ! i)) \<le> length (transition (b ! i))"
      by (metis length_take min.cobounded1)
    have "take (length (transition (a ! i))) (transition (c ! i)) =
          take (length (transition (a ! i))) (take (length (transition (b ! i))) (transition (c ! i)))"
      using le by (simp add: min_def)
    with 1 2 show ?thesis by simp
  qed
  with ab bc show ?thesis by (auto simp: grows_def)
qed

lemma grows_prefix:
  "grows ss ss' \<Longrightarrow> i < length ss \<Longrightarrow>
   \<exists>new. transition (ss' ! i) = transition (ss ! i) @ new"
  by (metis append_take_drop_id grows_def)

lemma states_add:
  assumes "trie ss" and "i < length ss"
    and "0 < i \<longrightarrow> key_of m \<notin> set (map (key_of \<circ> t_matcher) (transition (ss ! i)))"
    and "transition new = []"
  shows "trie (ss[i := (ss ! i)\<lparr>transition := transition (ss ! i) @
            [\<lparr>t_matcher = m, t_next = length ss, set_crc = c\<rparr>]\<rparr>] @ [new])"
    and "grows ss (ss[i := (ss ! i)\<lparr>transition := transition (ss ! i) @
            [\<lparr>t_matcher = m, t_next = length ss, set_crc = c\<rparr>]\<rparr>] @ [new])"
proof -
  let ?ss = "ss[i := (ss ! i)\<lparr>transition := transition (ss ! i) @
            [\<lparr>t_matcher = m, t_next = length ss, set_crc = c\<rparr>]\<rparr>] @ [new]"
  have nth: "transition (?ss ! j) =
      (if j = i then transition (ss ! i) @ [\<lparr>t_matcher = m, t_next = length ss, set_crc = c\<rparr>]
       else if j < length ss then transition (ss ! j) else [])" if "j < Suc (length ss)" for j
    using that assms(2,4) by (auto simp: nth_append nth_list_update less_Suc_eq)
  from assms(1) have fe: "forward_edges ss" and ds: "distinct_siblings ss"
    by (simp_all add: trie_def)
  have "forward_edges ?ss"
    unfolding forward_edges_def
  proof (intro allI impI ballI)
    fix j t
    assume j: "j < length ?ss" and t: "t \<in> set (transition (?ss ! j))"
    from j have j': "j < Suc (length ss)" by simp
    show "j < t_next t \<and> t_next t < length ?ss"
    proof (cases "t \<in> set (transition (ss ! j)) \<and> j < length ss")
      case True
      with fe have "j < t_next t \<and> t_next t < length ss"
        unfolding forward_edges_def by blast
      then show ?thesis by simp
    next
      case False
      with t nth [OF j'] assms(2) have "j = i \<and> t = \<lparr>t_matcher = m, t_next = length ss, set_crc = c\<rparr>"
        by (auto split: if_splits)
      with assms(2) show ?thesis by simp
    qed
  qed
  moreover have "distinct_siblings ?ss"
    unfolding distinct_siblings_def
  proof (intro allI impI)
    fix j
    assume j: "j < length ?ss" and pos: "0 < j"
    from j have j': "j < Suc (length ss)" by simp
    show "distinct (map (key_of \<circ> t_matcher) (transition (?ss ! j)))"
    proof (cases "j = i")
      case True
      with nth [OF j'] ds assms(2,3) pos show ?thesis
        by (auto simp: distinct_siblings_def)
    next
      case False
      with nth [OF j'] ds pos show ?thesis
        by (auto simp: distinct_siblings_def)
    qed
  qed
  ultimately show "trie ?ss" by (simp add: trie_def)
  show "grows ss ?ss"
    unfolding grows_def
  proof (intro conjI allI impI)
    show "length ss \<le> length ?ss" by simp
  next
    fix j assume "j < length ss"
    then show "take (length (transition (ss ! j))) (transition (?ss ! j)) = transition (ss ! j)"
      using nth [of j] by simp
  qed
qed

lemma add_state_transition_states:
  assumes "st < length (states self)"
  shows "add_state_transition self st nm m crc =
     (self\<lparr>states := (states self)[st := (states self ! st)\<lparr>transition :=
          transition (states self ! st) @
            [\<lparr>t_matcher = m, t_next = length (states self), set_crc = crc\<rparr>]\<rparr>] @
        [\<lparr>name = unique_name self nm, transition = [],
          pos = pos (states self ! st) + msize m, smode = mode self, op = None\<rparr>]\<rparr>,
      length (states self))"
  using assms
  by (simp add: add_state_transition_def new_state_def State_add_def Let_def nth_append
      list_update_append1)

lemma add_operation_state_states:
  assumes "crc < length (states self)"
  shows "states (add_operation_state self crc cn x) =
     (states self)[crc := (states self ! crc)\<lparr>transition :=
          transition (states self ! crc) @
            [\<lparr>t_matcher = crc_matcher, t_next = length (states self), set_crc = False\<rparr>]\<rparr>] @
        [\<lparr>name = ''RDY_TO_CALL__'' @ upper cn, transition = [], pos = 0, smode = ''slave'',
          op = Some x\<rparr>]"
  using assms
  by (simp add: add_operation_state_def State_add_def Let_def nth_append list_update_append1)


lemma get_next_forward:
  assumes "forward_edges ss" and "st < length ss"
    and "State_get_next_state_of (ss ! st) m = Inr nxt"
  shows "st < nxt \<and> nxt < length ss"
proof -
  from assms(3) obtain t where
    f: "find (\<lambda>t. matcher_eq (t_matcher t) m) (transition (ss ! st)) = Some t"
    and n: "nxt = t_next t"
    by (auto simp: State_get_next_state_of_def split: option.splits)
  from f have "t \<in> set (transition (ss ! st))"
    by (auto simp: find_Some_iff)
  with assms(1,2) n show ?thesis unfolding forward_edges_def by blast
qed

lemma terminal_states:
  assumes "trie ss" and "0 < st" and "st < length ss"
    and "key_of m \<notin> set (map (key_of \<circ> t_matcher) (transition (ss ! st)))"
    and "transition new = []" and "transition ops = []"
    and "ss1 = ss[st := (ss ! st)\<lparr>transition := transition (ss ! st) @
            [\<lparr>t_matcher = m, t_next = length ss, set_crc = c\<rparr>]\<rparr>] @ [new]"
    and "ss2 = ss1[length ss := (ss1 ! length ss)\<lparr>transition :=
            transition (ss1 ! length ss) @
            [\<lparr>t_matcher = m2, t_next = length ss1, set_crc = c2\<rparr>]\<rparr>] @ [ops]"
  shows "trie ss2" and "grows ss ss2"
    and "transition (ss2 ! st) =
           transition (ss ! st) @ [\<lparr>t_matcher = m, t_next = length ss, set_crc = c\<rparr>]"
proof -
  from assms(1,3,4,5) have t1: "trie ss1" and g1: "grows ss ss1"
    unfolding assms(7) by (simp_all add: states_add)
  have l1: "length ss < length ss1" unfolding assms(7) by simp
  have e1: "transition (ss1 ! length ss) = []"
    unfolding assms(7) using assms(5) by (simp add: nth_append)
  from e1 have k: "0 < length ss \<longrightarrow>
      key_of m2 \<notin> set (map (key_of \<circ> t_matcher) (transition (ss1 ! length ss)))"
    by simp
  from states_add(1) [OF t1 l1 k assms(6)] show "trie ss2" unfolding assms(8) .
  from states_add(2) [OF t1 l1 k assms(6)] have g2: "grows ss1 ss2" unfolding assms(8) .
  from g1 g2 show "grows ss ss2" by (rule grows_trans)
  from assms(3) show "transition (ss2 ! st) =
           transition (ss ! st) @ [\<lparr>t_matcher = m, t_next = length ss, set_crc = c\<rparr>]"
    unfolding assms(8) assms(7) by (simp add: nth_append nth_list_update)
qed

lemma terminal_result:
  assumes "st < length (states self)"
    and "add_state_transition self st nm m c = (self2, crc)"
    and "g = add_operation_state self2 crc cn x"
  shows "\<exists>new ops ss1. transition new = [] \<and> transition ops = [] \<and>
     ss1 = (states self)[st := (states self ! st)\<lparr>transition :=
              transition (states self ! st) @
              [\<lparr>t_matcher = m, t_next = length (states self), set_crc = c\<rparr>]\<rparr>] @ [new] \<and>
     states g = ss1[length (states self) := (ss1 ! length (states self))\<lparr>transition :=
              transition (ss1 ! length (states self)) @
              [\<lparr>t_matcher = crc_matcher, t_next = length ss1, set_crc = False\<rparr>]\<rparr>] @ [ops] \<and>
     crc = length (states self) \<and> callbacks g = callbacks self"
proof -
  let ?new = "\<lparr>name = unique_name self nm, transition = [],
          pos = pos (states self ! st) + msize m, smode = mode self, op = None\<rparr>"
  let ?ss1 = "(states self)[st := (states self ! st)\<lparr>transition :=
              transition (states self ! st) @
              [\<lparr>t_matcher = m, t_next = length (states self), set_crc = c\<rparr>]\<rparr>] @ [?new]"
  from assms(2) have s2: "self2 = self\<lparr>states := ?ss1\<rparr>" and crc: "crc = length (states self)"
    unfolding add_state_transition_states [OF assms(1)] by auto
  have l: "crc < length (states self2)" unfolding s2 crc by simp
  have "states g = ?ss1[length (states self) := (?ss1 ! length (states self))\<lparr>transition :=
              transition (?ss1 ! length (states self)) @
              [\<lparr>t_matcher = crc_matcher, t_next = length ?ss1, set_crc = False\<rparr>]\<rparr>] @
           [\<lparr>name = ''RDY_TO_CALL__'' @ upper cn, transition = [], pos = 0, smode = ''slave'',
             op = Some x\<rparr>]"
    unfolding assms(3) add_operation_state_states [OF l]
    unfolding s2 crc by simp
  moreover have "callbacks g = callbacks self"
    unfolding assms(3) s2 by (simp add: add_operation_state_def State_add_def Let_def)
  ultimately show ?thesis using crc
    by (intro exI [of _ ?new] exI [of _ "\<lparr>name = ''RDY_TO_CALL__'' @ upper cn, transition = [],
        pos = 0, smode = ''slave'', op = Some x\<rparr>"] exI [of _ ?ss1]) simp
qed

lemma loop_trie:
  "process_sequence_loop self a st p seen rest = Inr (g, c) \<Longrightarrow>
   trie (states self) \<Longrightarrow> 0 < st \<Longrightarrow> st < length (states self) \<Longrightarrow>
   trie (states g) \<and> grows (states self) (states g)"
proof (induction rest arbitrary: self st p seen)
  case Nil
  then show ?case by simp
next
  case (Cons x rest)
  note tr = \<open>trie (states self)\<close> and st0 = \<open>0 < st\<close> and stl = \<open>st < length (states self)\<close>
  show ?case
  proof (cases x)
    case (S s)
    with Cons.prems show ?thesis by simp
  next
    case (M m)
    let ?m = "m\<lparr>mpos := Some (p + msize m)\<rparr>"
    show ?thesis
    proof (cases "State_has (states self ! st) m")
      case True
      with M Cons.prems(1) obtain nxt where
        nx: "State_get_next_state_of (states self ! st) m = Inr nxt" and
        rec: "process_sequence_loop self a nxt (p + msize m) (seen @ [M ?m]) rest = Inr (g, c)"
        by (auto simp: loop_descend split: sum.splits)
      from tr have "forward_edges (states self)" by (simp add: trie_def)
      from get_next_forward [OF this stl nx] st0 have "0 < nxt" "nxt < length (states self)"
        by simp_all
      from Cons.IH [OF rec tr this] show ?thesis .
    next
      case False
      then have nk: "key_of ?m \<notin> set (map (key_of \<circ> t_matcher) (transition (states self ! st)))"
        by (simp add: State_has_key)
      show ?thesis
      proof (cases rest)
        case Nil
        with M False Cons.prems show ?thesis by (simp add: loop_last)
      next
        case (Cons y ys)
        show ?thesis
        proof (cases y)
          case (M m2)
          let ?new = "\<lparr>name = unique_name self (State_next (states self ! st) (malias m)),
            transition = [], pos = pos (states self ! st) + msize m, smode = mode self,
            op = None\<rparr>"
          let ?ss = "(states self)[st := (states self ! st)\<lparr>transition :=
              transition (states self ! st) @
              [\<lparr>t_matcher = ?m, t_next = length (states self), set_crc = False\<rparr>]\<rparr>] @ [?new]"
          from Cons.prems(1) \<open>x = M m\<close> False Cons M stl
          have rec: "process_sequence_loop (self\<lparr>states := ?ss\<rparr>) a (length (states self))
                  (p + msize m) (seen @ [M ?m]) rest = Inr (g, c)"
            by (simp add: loop_insert add_state_transition_states msize_def)
          from tr stl nk have t2: "trie ?ss" and g2: "grows (states self) ?ss"
            by (simp_all add: states_add)
          have i1: "trie (states (self\<lparr>states := ?ss\<rparr>))" using t2 by simp
          have i2: "0 < length (states self)" using stl by (cases "states self") simp_all
          have i3: "length (states self) < length (states (self\<lparr>states := ?ss\<rparr>))" by simp
          from Cons.IH [OF rec i1 i2 i3]
          have "trie (states g)" and "grows ?ss (states g)" by simp_all
          with g2 show ?thesis by (auto intro: grows_trans)
        next
          case (S s)
          from Cons.prems(1) \<open>x = M m\<close> False Cons S obtain cn x1 self2 crc where
            ast: "add_state_transition self st
                    (State_next (states self ! st) (Some (''_'' @ upper cn @ ''__CRC'')))
                    ?m True = (self2, crc)"
            and g: "g = add_operation_state self2 crc cn x1"
            by (auto simp: loop_terminal split: item.splits sum.splits prod.splits)
          from terminal_result [OF stl ast g] obtain new ops ss1 where
            n: "transition new = []" "transition ops = []"
            and ss1: "ss1 = (states self)[st := (states self ! st)\<lparr>transition :=
                  transition (states self ! st) @
                  [\<lparr>t_matcher = ?m, t_next = length (states self), set_crc = True\<rparr>]\<rparr>] @ [new]"
            and sg: "states g = ss1[length (states self) :=
                  (ss1 ! length (states self))\<lparr>transition :=
                    transition (ss1 ! length (states self)) @
                    [\<lparr>t_matcher = crc_matcher, t_next = length ss1, set_crc = False\<rparr>]\<rparr>] @ [ops]"
            by blast
          from terminal_states(1,2) [OF tr st0 stl nk n ss1 sg] show ?thesis by simp
        qed
      qed
    qed
  qed
qed


lemma matcher_eq_pos1 [simp]: "matcher_eq (m\<lparr>mpos := x\<rparr>) t = matcher_eq m t"
  by (simp add: matcher_eq_def)

lemma siblings_filter:
  assumes "distinct_siblings ss" and "0 < s" and "s < length ss"
  shows "length (filter (\<lambda>t. matcher_eq (t_matcher t) m) (transition (ss ! s))) \<le> 1"
proof -
  from assms have "distinct (map (key_of \<circ> t_matcher) (transition (ss ! s)))"
    by (simp add: distinct_siblings_def)
  from filter_distinct_key [OF this, of "key_of m"] show ?thesis
    by (simp add: matcher_eq_key)
qed

lemma filter_grows:
  assumes "trie ss'" and "grows ss ss'" and "0 < s" and "s < length ss"
    and "filter (\<lambda>t. matcher_eq (t_matcher t) m) (transition (ss ! s)) = [t]"
  shows "filter (\<lambda>t. matcher_eq (t_matcher t) m) (transition (ss' ! s)) = [t]"
proof -
  from grows_prefix [OF assms(2,4)] obtain new where
    n: "transition (ss' ! s) = transition (ss ! s) @ new" by blast
  from assms(2,4) have "s < length ss'" by (simp add: grows_def)
  moreover from assms(1) have "distinct_siblings ss'" by (simp add: trie_def)
  ultimately
  have "length (filter (\<lambda>t. matcher_eq (t_matcher t) m) (transition (ss' ! s))) \<le> 1"
    using assms(3) by (intro siblings_filter)
  with n assms(5) have "filter (\<lambda>t. matcher_eq (t_matcher t) m) new = []" by simp
  with n assms(5) show ?thesis by simp
qed

lemma paths_single:
  assumes "filter (\<lambda>t. matcher_eq (t_matcher t) m) (transition (ss ! s)) = [t]"
  shows "paths ss s (m # ms) = map (\<lambda>q. t_next t # q) (paths ss (t_next t) ms)"
  using assms by simp

lemma paths_step:
  assumes "trie ss" and "0 < s" and "s < length ss" and "paths ss s (m # ms) = [q]"
  obtains t q' where "filter (\<lambda>t. matcher_eq (t_matcher t) m) (transition (ss ! s)) = [t]"
    and "paths ss (t_next t) ms = [q']" and "q = t_next t # q'"
    and "0 < t_next t" and "t_next t < length ss"
proof -
  let ?f = "filter (\<lambda>t. matcher_eq (t_matcher t) m) (transition (ss ! s))"
  from assms(1) have "distinct_siblings ss" by (simp add: trie_def)
  from siblings_filter [OF this assms(2,3)] have "length ?f \<le> 1" .
  moreover from assms(4) have "?f \<noteq> []" by auto
  ultimately obtain t where f: "?f = [t]"
    by (cases ?f) (auto simp: Suc_le_eq)
  with assms(4) have "map (\<lambda>q. t_next t # q) (paths ss (t_next t) ms) = [q]" by simp
  then obtain q' where q: "paths ss (t_next t) ms = [q']" "q = t_next t # q'"
    by (cases "paths ss (t_next t) ms") auto
  from f have "t \<in> set ?f" by simp
  then have "t \<in> set (transition (ss ! s))" by simp
  with assms(1,3) have "s < t_next t \<and> t_next t < length ss"
    unfolding trie_def forward_edges_def by blast
  with assms(2) f q that show ?thesis by simp
qed

lemma paths_grows:
  "trie ss \<Longrightarrow> trie ss' \<Longrightarrow> grows ss ss' \<Longrightarrow> 0 < s \<Longrightarrow> s < length ss \<Longrightarrow>
   paths ss s ms = [q] \<Longrightarrow> paths ss' s ms = [q]"
proof (induction ms arbitrary: s q)
  case Nil
  then show ?case by simp
next
  case (Cons m ms)
  from paths_step [OF Cons.prems(1,4,5,6)] obtain t q' where
    f: "filter (\<lambda>t. matcher_eq (t_matcher t) m) (transition (ss ! s)) = [t]"
    and p: "paths ss (t_next t) ms = [q']" and q: "q = t_next t # q'"
    and r: "0 < t_next t" "t_next t < length ss"
    by blast
  from filter_grows [OF Cons.prems(2,3,4,5) f]
  have "paths ss' s (m # ms) = map (\<lambda>q. t_next t # q) (paths ss' (t_next t) ms)"
    by (rule paths_single)
  with Cons.IH [OF Cons.prems(1,2,3) r p] q show ?case by simp
qed

lemma paths_prefix:
  "trie ss \<Longrightarrow> 0 < s \<Longrightarrow> s < length ss \<Longrightarrow> paths ss s (ms1 @ ms2) = [q] \<Longrightarrow>
   paths ss s ms1 = [take (length ms1) q]"
proof (induction ms1 arbitrary: s q)
  case Nil
  then show ?case by simp
next
  case (Cons m ms1)
  from Cons.prems(4) have "paths ss s (m # (ms1 @ ms2)) = [q]" by simp
  from paths_step [OF Cons.prems(1,2,3) this] obtain t q' where
    f: "filter (\<lambda>t. matcher_eq (t_matcher t) m) (transition (ss ! s)) = [t]"
    and p: "paths ss (t_next t) (ms1 @ ms2) = [q']" and q: "q = t_next t # q'"
    and r: "0 < t_next t" "t_next t < length ss"
    by blast
  from Cons.IH [OF Cons.prems(1) r p] f q show ?case by simp
qed

lemma paths_cong:
  "list_all2 matcher_eq ms ms' \<Longrightarrow> paths ss s ms = paths ss s ms'"
proof (induction ms ms' arbitrary: s rule: list_all2_induct)
  case Nil
  show ?case by simp
next
  case (Cons m ms m' ms')
  from Cons.hyps(1) have e: "matcher_eq (t_matcher t) m = matcher_eq (t_matcher t) m'" for t
    by (simp add: matcher_eq_key)
  show ?case by (simp add: e Cons.IH)
qed

lemma find_filter:
  assumes "find Q xs = Some t" and "length (filter Q xs) \<le> 1"
  shows "filter Q xs = [t]"
proof -
  from assms(1) have "t \<in> set (filter Q xs)"
    by (auto simp: find_Some_iff)
  with assms(2) show ?thesis
    by (cases "filter Q xs") (auto simp: Suc_le_eq)
qed


lemma loop_path:
  "process_sequence_loop self a st p seen rest = Inr (g, c) \<Longrightarrow>
   trie (states self) \<Longrightarrow> 0 < st \<Longrightarrow> st < length (states self) \<Longrightarrow>
   \<exists>q. paths (states g) st (leading rest) = [q]"
proof (induction rest arbitrary: self st p seen)
  case Nil
  then show ?case by simp
next
  case (Cons x rest)
  note tr = \<open>trie (states self)\<close> and st0 = \<open>0 < st\<close> and stl = \<open>st < length (states self)\<close>
  from loop_trie [OF Cons.prems] have tg: "trie (states g)"
    and gg: "grows (states self) (states g)" by simp_all
  show ?case
  proof (cases x)
    case (S s)
    with Cons.prems show ?thesis by simp
  next
    case (M m)
    let ?m = "m\<lparr>mpos := Some (p + msize m)\<rparr>"
    let ?eq = "\<lambda>t. matcher_eq (t_matcher t) m"
    show ?thesis
    proof (cases "State_has (states self ! st) m")
      case True
      with M Cons.prems(1) obtain nxt where
        nx: "State_get_next_state_of (states self ! st) m = Inr nxt" and
        rec: "process_sequence_loop self a nxt (p + msize m) (seen @ [M ?m]) rest = Inr (g, c)"
        by (auto simp: loop_descend split: sum.splits)
      from tr have fe: "forward_edges (states self)" and ds: "distinct_siblings (states self)"
        by (simp_all add: trie_def)
      from get_next_forward [OF fe stl nx] st0 have n: "0 < nxt" "nxt < length (states self)"
        by simp_all
      from Cons.IH [OF rec tr n] obtain q where q: "paths (states g) nxt (leading rest) = [q]"
        by blast
      from nx obtain t where f: "find ?eq (transition (states self ! st)) = Some t"
        and nt: "nxt = t_next t"
        by (auto simp: State_get_next_state_of_def split: option.splits)
      from find_filter [OF f siblings_filter [OF ds st0 stl]]
      have "filter ?eq (transition (states self ! st)) = [t]" .
      from filter_grows [OF tg gg st0 stl this]
      have "paths (states g) st (m # leading rest) =
              map (\<lambda>q. t_next t # q) (paths (states g) (t_next t) (leading rest))"
        by (rule paths_single)
      with q nt M show ?thesis by simp
    next
      case False
      then have nk: "key_of ?m \<notin> set (map (key_of \<circ> t_matcher) (transition (states self ! st)))"
        by (simp add: State_has_key)
      from False have nf: "filter ?eq (transition (states self ! st)) = []"
        by (auto simp: State_has_def filter_empty_conv find_None_iff)
      show ?thesis
      proof (cases rest)
        case Nil
        with M False Cons.prems show ?thesis by (simp add: loop_last)
      next
        case (Cons y ys)
        show ?thesis
        proof (cases y)
          case (M m2)
          let ?new = "\<lparr>name = unique_name self (State_next (states self ! st) (malias m)),
            transition = [], pos = pos (states self ! st) + msize m, smode = mode self,
            op = None\<rparr>"
          let ?t = "\<lparr>t_matcher = ?m, t_next = length (states self), set_crc = False\<rparr>"
          let ?ss = "(states self)[st := (states self ! st)\<lparr>transition :=
              transition (states self ! st) @ [?t]\<rparr>] @ [?new]"
          from Cons.prems(1) \<open>x = M m\<close> False Cons M stl
          have rec: "process_sequence_loop (self\<lparr>states := ?ss\<rparr>) a (length (states self))
                  (p + msize m) (seen @ [M ?m]) rest = Inr (g, c)"
            by (simp add: loop_insert add_state_transition_states msize_def)
          from tr stl nk have t2: "trie ?ss" and g2: "grows (states self) ?ss"
            by (simp_all add: states_add)
          have i1: "trie (states (self\<lparr>states := ?ss\<rparr>))" using t2 by simp
          have i2: "0 < length (states self)" using stl by (cases "states self") simp_all
          have i3: "length (states self) < length (states (self\<lparr>states := ?ss\<rparr>))" by simp
          from Cons.IH [OF rec i1 i2 i3] obtain q where
            q: "paths (states g) (length (states self)) (leading rest) = [q]" by blast
          from loop_trie [OF rec i1 i2 i3] have g3: "grows ?ss (states g)" by simp
          have "filter ?eq (transition (?ss ! st)) = [?t]"
            using stl nf by (simp add: nth_append matcher_eq_key)
          moreover have "st < length ?ss" using stl by simp
          ultimately have "filter ?eq (transition (states g ! st)) = [?t]"
            using filter_grows [OF tg g3 st0] by blast
          then have "paths (states g) st (m # leading rest) =
              map (\<lambda>q. t_next ?t # q) (paths (states g) (t_next ?t) (leading rest))"
            by (rule paths_single)
          with q \<open>x = M m\<close> show ?thesis by simp
        next
          case (S s)
          from Cons.prems(1) \<open>x = M m\<close> False Cons S obtain cn x1 self2 crc where
            ast: "add_state_transition self st
                    (State_next (states self ! st) (Some (''_'' @ upper cn @ ''__CRC'')))
                    ?m True = (self2, crc)"
            and g: "g = add_operation_state self2 crc cn x1"
            by (auto simp: loop_terminal split: item.splits sum.splits prod.splits)
          from terminal_result [OF stl ast g] obtain new ops ss1 where
            n: "transition new = []" "transition ops = []"
            and ss1: "ss1 = (states self)[st := (states self ! st)\<lparr>transition :=
                  transition (states self ! st) @
                  [\<lparr>t_matcher = ?m, t_next = length (states self), set_crc = True\<rparr>]\<rparr>] @ [new]"
            and sg: "states g = ss1[length (states self) :=
                  (ss1 ! length (states self))\<lparr>transition :=
                    transition (ss1 ! length (states self)) @
                    [\<lparr>t_matcher = crc_matcher, t_next = length ss1, set_crc = False\<rparr>]\<rparr>] @ [ops]"
            by blast
          from terminal_states(3) [OF tr st0 stl nk n ss1 sg] nf
          have "filter ?eq (transition (states g ! st)) =
                  [\<lparr>t_matcher = ?m, t_next = length (states self), set_crc = True\<rparr>]"
            by (simp add: matcher_eq_key)
          with \<open>x = M m\<close> Cons S show ?thesis by simp
        qed
      qed
    qed
  qed
qed

lemma leading_append_S [simp]: "leading (xs @ [S n]) = leading xs"
  by (induction xs rule: leading.induct) simp_all

lemma process_sequence_trie:
  assumes "process_sequence self a st cmd = Inr (g, c)"
    and "trie (states self)" and "0 < st" and "st < length (states self)"
  shows "trie (states g)" and "grows (states self) (states g)"
    and "\<exists>q. paths (states g) st (leading cmd) = [q]"
proof -
  have "\<exists>c' tl. process_sequence_loop self a st 1 [] (cmd @ tl) = Inr (g, c') \<and>
          (tl = [] \<or> tl = [S ''NOTHING''])"
  proof (cases "last cmd")
    case (S cb)
    with assms(1) have "process_sequence_loop self a st 1 [] (cmd @ []) = Inr (g, c)"
      by (auto simp: process_sequence_def split: if_splits)
    then show ?thesis by blast
  next
    case (M m)
    with assms(1) obtain c' where
      "process_sequence_loop self a st 1 [] (cmd @ [S ''NOTHING'']) = Inr (g, c')"
      by (auto simp: process_sequence_def split: if_splits sum.splits prod.splits)
    then show ?thesis by blast
  qed
  then obtain c' tl where
    l: "process_sequence_loop self a st 1 [] (cmd @ tl) = Inr (g, c')"
    and tl: "tl = [] \<or> tl = [S ''NOTHING'']"
    by blast
  from loop_trie [OF l assms(2,3,4)] show "trie (states g)" and "grows (states self) (states g)"
    by simp_all
  from loop_path [OF l assms(2,3,4)] tl show "\<exists>q. paths (states g) st (leading cmd) = [q]"
    by auto
qed

lemma process_commands_trie:
  "process_commands self a st cmds = Inr (g, cs) \<Longrightarrow>
   trie (states self) \<Longrightarrow> 0 < st \<Longrightarrow> st < length (states self) \<Longrightarrow>
   trie (states g) \<and> grows (states self) (states g)"
proof (induction cmds arbitrary: self cs)
  case Nil
  then show ?case by simp
next
  case (Cons cmd cmds)
  from Cons.prems(1) obtain self1 c1 cs1 where
    1: "process_sequence self a st cmd = Inr (self1, c1)" and
    2: "process_commands self1 a st cmds = Inr (g, cs1)"
    by (auto split: sum.splits prod.splits)
  from process_sequence_trie(1,2) [OF 1 Cons.prems(2,3,4)]
  have t1: "trie (states self1)" and g1: "grows (states self) (states self1)" .
  from g1 Cons.prems(4) have l1: "st < length (states self1)" by (simp add: grows_def)
  from Cons.IH [OF 2 t1 Cons.prems(3) l1] g1 show ?case by (auto intro: grows_trans)
qed

lemma process_commands_paths:
  "process_commands self a st cmds = Inr (g, cs) \<Longrightarrow>
   trie (states self) \<Longrightarrow> 0 < st \<Longrightarrow> st < length (states self) \<Longrightarrow>
   cmd \<in> set cmds \<Longrightarrow> \<exists>q. paths (states g) st (leading cmd) = [q]"
proof (induction cmds arbitrary: self cs)
  case Nil
  then show ?case by simp
next
  case (Cons c0 cmds)
  from Cons.prems(1) obtain self1 c1 cs1 where
    1: "process_sequence self a st c0 = Inr (self1, c1)" and
    2: "process_commands self1 a st cmds = Inr (g, cs1)"
    by (auto split: sum.splits prod.splits)
  from process_sequence_trie(1,2) [OF 1 Cons.prems(2,3,4)]
  have t1: "trie (states self1)" and g1: "grows (states self) (states self1)" .
  from g1 Cons.prems(4) have l1: "st < length (states self1)" by (simp add: grows_def)
  from process_commands_trie [OF 2 t1 Cons.prems(3) l1]
  have tg: "trie (states g)" and gg: "grows (states self1) (states g)" by simp_all
  show ?case
  proof (cases "cmd = c0")
    case True
    from process_sequence_trie(3) [OF 1 Cons.prems(2,3,4)] obtain q where
      "paths (states self1) st (leading c0) = [q]" by blast
    from paths_grows [OF t1 tg gg Cons.prems(3) l1 this] True show ?thesis by blast
  next
    case False
    with Cons.prems(5) have "cmd \<in> set cmds" by simp
    from Cons.IH [OF 2 t1 Cons.prems(3) l1 this] show ?thesis .
  qed
qed

lemma paths_length: "q \<in> set (paths ss s ms) \<Longrightarrow> length q = length ms"
  by (induction ms arbitrary: s q) auto

lemma loop_below:
  "process_sequence_loop self a st p seen rest = Inr (g, c) \<Longrightarrow>
   trie (states self) \<Longrightarrow> 0 < st \<Longrightarrow> st < length (states self) \<Longrightarrow> i < st \<Longrightarrow>
   states g ! i = states self ! i"
proof (induction rest arbitrary: self st p seen)
  case Nil
  then show ?case by simp
next
  case (Cons x rest)
  note tr = \<open>trie (states self)\<close> and st0 = \<open>0 < st\<close> and stl = \<open>st < length (states self)\<close>
    and i = \<open>i < st\<close>
  show ?case
  proof (cases x)
    case (S s)
    with Cons.prems show ?thesis by simp
  next
    case (M m)
    let ?m = "m\<lparr>mpos := Some (p + msize m)\<rparr>"
    show ?thesis
    proof (cases "State_has (states self ! st) m")
      case True
      with M Cons.prems(1) obtain nxt where
        nx: "State_get_next_state_of (states self ! st) m = Inr nxt" and
        rec: "process_sequence_loop self a nxt (p + msize m) (seen @ [M ?m]) rest = Inr (g, c)"
        by (auto simp: loop_descend split: sum.splits)
      from tr have "forward_edges (states self)" by (simp add: trie_def)
      from get_next_forward [OF this stl nx] st0 i
      have "0 < nxt" "nxt < length (states self)" "i < nxt" by simp_all
      from Cons.IH [OF rec tr this] show ?thesis .
    next
      case False
      then have nk: "key_of ?m \<notin> set (map (key_of \<circ> t_matcher) (transition (states self ! st)))"
        by (simp add: State_has_key)
      show ?thesis
      proof (cases rest)
        case Nil
        with M False Cons.prems show ?thesis by (simp add: loop_last)
      next
        case (Cons y ys)
        show ?thesis
        proof (cases y)
          case (M m2)
          let ?new = "\<lparr>name = unique_name self (State_next (states self ! st) (malias m)),
            transition = [], pos = pos (states self ! st) + msize m, smode = mode self,
            op = None\<rparr>"
          let ?ss = "(states self)[st := (states self ! st)\<lparr>transition :=
              transition (states self ! st) @
              [\<lparr>t_matcher = ?m, t_next = length (states self), set_crc = False\<rparr>]\<rparr>] @ [?new]"
          from Cons.prems(1) \<open>x = M m\<close> False Cons M stl
          have rec: "process_sequence_loop (self\<lparr>states := ?ss\<rparr>) a (length (states self))
                  (p + msize m) (seen @ [M ?m]) rest = Inr (g, c)"
            by (simp add: loop_insert add_state_transition_states msize_def)
          from tr stl nk have t2: "trie ?ss" by (simp add: states_add)
          have i1: "trie (states (self\<lparr>states := ?ss\<rparr>))" using t2 by simp
          have i2: "0 < length (states self)" using stl by (cases "states self") simp_all
          have i3: "length (states self) < length (states (self\<lparr>states := ?ss\<rparr>))" by simp
          have i4: "i < length (states self)" using i stl by simp
          from Cons.IH [OF rec i1 i2 i3 i4] have "states g ! i = ?ss ! i" by simp
          also from i stl have "?ss ! i = states self ! i" by (simp add: nth_append)
          finally show ?thesis .
        next
          case (S s)
          from Cons.prems(1) \<open>x = M m\<close> False Cons S obtain cn x1 self2 crc where
            ast: "add_state_transition self st
                    (State_next (states self ! st) (Some (''_'' @ upper cn @ ''__CRC'')))
                    ?m True = (self2, crc)"
            and g: "g = add_operation_state self2 crc cn x1"
            by (auto simp: loop_terminal split: item.splits sum.splits prod.splits)
          from terminal_result [OF stl ast g] obtain new ops ss1 where
            ss1: "ss1 = (states self)[st := (states self ! st)\<lparr>transition :=
                  transition (states self ! st) @
                  [\<lparr>t_matcher = ?m, t_next = length (states self), set_crc = True\<rparr>]\<rparr>] @ [new]"
            and sg: "states g = ss1[length (states self) :=
                  (ss1 ! length (states self))\<lparr>transition :=
                    transition (ss1 ! length (states self)) @
                    [\<lparr>t_matcher = crc_matcher, t_next = length ss1, set_crc = False\<rparr>]\<rparr>] @ [ops]"
            by blast
          from i stl show ?thesis unfolding sg ss1 by (simp add: nth_append)
        qed
      qed
    qed
  qed
qed

lemma process_sequence_below:
  assumes "process_sequence self a st cmd = Inr (g, c)"
    and "trie (states self)" and "0 < st" and "st < length (states self)" and "i < st"
  shows "states g ! i = states self ! i"
proof -
  have "\<exists>c' tl. process_sequence_loop self a st 1 [] (cmd @ tl) = Inr (g, c')"
  proof (cases "last cmd")
    case (S cb)
    with assms(1) have "process_sequence_loop self a st 1 [] (cmd @ []) = Inr (g, c)"
      by (auto simp: process_sequence_def split: if_splits)
    then show ?thesis by blast
  next
    case (M m)
    with assms(1) obtain c' where
      "process_sequence_loop self a st 1 [] (cmd @ [S ''NOTHING'']) = Inr (g, c')"
      by (auto simp: process_sequence_def split: if_splits sum.splits prod.splits)
    then show ?thesis by blast
  qed
  then obtain c' tl where
    l: "process_sequence_loop self a st 1 [] (cmd @ tl) = Inr (g, c')"
    by blast
  from loop_below [OF l assms(2,3,4,5)] show ?thesis .
qed

lemma process_commands_below:
  "process_commands self a st cmds = Inr (g, cs) \<Longrightarrow>
   trie (states self) \<Longrightarrow> 0 < st \<Longrightarrow> st < length (states self) \<Longrightarrow> i < st \<Longrightarrow>
   states g ! i = states self ! i"
proof (induction cmds arbitrary: self cs)
  case Nil
  then show ?case by simp
next
  case (Cons cmd cmds)
  from Cons.prems(1) obtain self1 c1 cs1 where
    1: "process_sequence self a st cmd = Inr (self1, c1)" and
    2: "process_commands self1 a st cmds = Inr (g, cs1)"
    by (auto split: sum.splits prod.splits)
  from process_sequence_trie(1,2) [OF 1 Cons.prems(2,3,4)]
  have t1: "trie (states self1)" and g1: "grows (states self) (states self1)" .
  from g1 Cons.prems(4) have l1: "st < length (states self1)" by (simp add: grows_def)
  from Cons.IH [OF 2 t1 Cons.prems(3) l1 Cons.prems(5)]
    process_sequence_below [OF 1 Cons.prems(2,3,4,5)]
  show ?case by simp
qed

lemma serves_grows:
  assumes "serves ss ak st cmds" and "trie ss" and "trie ss'" and "grows ss ss'"
  shows "serves ss' ak st cmds"
proof -
  from assms(1) have st: "0 < st" "st < length ss"
    and m: "\<exists>t\<in>set (transition (ss ! 0)). key_of (t_matcher t) = ak \<and> t_next t = st"
    and p: "\<forall>cmd\<in>set cmds. \<exists>q. paths ss st (leading cmd) = [q]"
    by (simp_all add: serves_def)
  from st have l0: "0 < length ss" by linarith
  from grows_prefix [OF assms(4) l0] m
  have "\<exists>t\<in>set (transition (ss' ! 0)). key_of (t_matcher t) = ak \<and> t_next t = st"
    by auto
  moreover from assms(4) st have "st < length ss'" by (simp add: grows_def)
  moreover have "\<forall>cmd\<in>set cmds. \<exists>q. paths ss' st (leading cmd) = [q]"
    using p paths_grows [OF assms(2,3,4) st] by blast
  ultimately show ?thesis using st by (simp add: serves_def)
qed

text \<open>The paths of a command do not depend on the positions of its matchers.\<close>

lemma erase_pos_key:
  assumes "erase_pos (M m) = erase_pos (M m')"
  shows "matcher_eq m m'"
proof -
  from assms have "m\<lparr>mpos := None\<rparr> = m'\<lparr>mpos := None\<rparr>" by simp
  then have "key_of (m\<lparr>mpos := None\<rparr>) = key_of (m'\<lparr>mpos := None\<rparr>)" by (rule arg_cong)
  then show ?thesis by (simp add: matcher_eq_key)
qed

lemma leading_erase:
  "map erase_pos c = map erase_pos c' \<Longrightarrow> list_all2 matcher_eq (leading c) (leading c')"
proof (induction c arbitrary: c' rule: leading.induct)
  case 1
  then show ?case by simp
next
  case (2 m rest)
  from "2.prems" obtain y ys where c': "c' = y # ys"
    and h: "erase_pos (M m) = erase_pos y" and t: "map erase_pos rest = map erase_pos ys"
    by (cases c') auto
  from h obtain m' where y: "y = M m'" by (cases y) auto
  from h y have "matcher_eq m m'" by (simp only: erase_pos_key)
  with "2.IH" [OF t] c' y show ?case by simp
next
  case (3 s rest)
  from "3.prems" obtain y ys where c': "c' = y # ys" and h: "erase_pos (S s) = erase_pos y"
    by (cases c') auto
  from h have "y = S s" by (cases y) auto
  with c' show ?case by simp
qed

lemma serves_erase:
  assumes "serves ss ak st v" and "erase_positions v = erase_positions v'"
  shows "serves ss ak st v'"
proof -
  have "\<exists>q. paths ss st (leading cmd') = [q]" if "cmd' \<in> set v'" for cmd'
  proof -
    from that obtain n where n: "n < length v'" and c': "cmd' = v' ! n"
      by (auto simp: in_set_conv_nth)
    from assms(2) have len: "length v = length v'"
      unfolding erase_positions_def by (rule map_eq_imp_length_eq)
    from assms(2) n len have "map erase_pos (v ! n) = map erase_pos (v' ! n)"
      unfolding erase_positions_def by (metis nth_map)
    from paths_cong [OF leading_erase [OF this]]
    have e: "paths ss st (leading (v ! n)) = paths ss st (leading cmd')" by (simp add: c')
    from n len have "v ! n \<in> set v" by simp
    with assms(1) obtain q where "paths ss st (leading (v ! n)) = [q]"
      by (auto simp: serves_def)
    then have "paths ss st (leading cmd') = [q]" unfolding e .
    then show ?thesis by blast
  qed
  with assms(1) show ?thesis by (simp add: serves_def)
qed

text \<open>
  \<open>process_devices\<close> gives each device key a state of its own and a transition of the
  initial state to it, without looking for an equal one; the commands of the key are
  then inserted from that state, which leaves the initial state as it is.
\<close>

lemma device_commands:
  assumes "process_commands
             (State_add self1 0 \<lparr>t_matcher = am, t_next = ds, set_crc = False\<rparr>) am' ds v
           = Inr (g, c)"
    and "new_state self nm q = (self1, ds)"
    and "trie (states self)" and "0 < length (states self)"
  shows "trie (states g)" and "grows (states self) (states g)"
    and "serves (states g) (key_of am) ds v"
    and "transition (states g ! 0) =
           transition (states self ! 0) @ [\<lparr>t_matcher = am, t_next = ds, set_crc = False\<rparr>]"
proof -
  let ?t = "\<lparr>t_matcher = am, t_next = length (states self), set_crc = False\<rparr>"
  let ?new = "\<lparr>name = unique_name self nm, transition = [], pos = q, smode = mode self,
               op = None\<rparr>"
  let ?ss = "(states self)[0 := (states self ! 0)\<lparr>transition :=
               transition (states self ! 0) @ [?t]\<rparr>] @ [?new]"
  let ?self2 = "State_add self1 0 \<lparr>t_matcher = am, t_next = ds, set_crc = False\<rparr>"
  from assms(2) have ds: "ds = length (states self)"
    and s1: "states self1 = states self @ [?new]"
    by (auto simp: new_state_def Let_def)
  from assms(4) have s2: "states ?self2 = ?ss"
    by (simp add: State_add_def s1 ds nth_append list_update_append1)
  have k: "0 < (0::nat) \<longrightarrow>
      key_of am \<notin> set (map (key_of \<circ> t_matcher) (transition (states self ! 0)))"
    by simp
  have n: "transition ?new = []" by simp
  from states_add [OF assms(3,4) k n] have t2: "trie ?ss" and g2: "grows (states self) ?ss"
    by simp_all
  have d0: "0 < ds" using assms(4) by (simp add: ds)
  have dl: "ds < length (states ?self2)" unfolding s2 unfolding ds by simp
  from t2 have t2': "trie (states ?self2)" by (simp add: s2)
  from process_commands_trie [OF assms(1) t2' d0 dl]
  have tg: "trie (states g)" and gg: "grows (states ?self2) (states g)" by simp_all
  from tg show "trie (states g)" .
  from g2 gg show gs: "grows (states self) (states g)" by (auto simp: s2 intro: grows_trans)
  from process_commands_below [OF assms(1) t2' d0 dl d0]
  have "states g ! 0 = states ?self2 ! 0" .
  then have "transition (states g ! 0) = transition (?ss ! 0)" by (simp add: s2)
  also from assms(4) have "\<dots> = transition (states self ! 0) @ [?t]" by (simp add: nth_append)
  finally show t0: "transition (states g ! 0) =
      transition (states self ! 0) @ [\<lparr>t_matcher = am, t_next = ds, set_crc = False\<rparr>]"
    by (simp add: ds)
  then have "\<exists>t\<in>set (transition (states g ! 0)). key_of (t_matcher t) = key_of am \<and> t_next t = ds"
    by simp
  moreover from gg dl have "ds < length (states g)" by (simp add: grows_def)
  moreover have "\<forall>cmd\<in>set v. \<exists>q. paths (states g) ds (leading cmd) = [q]"
    using process_commands_paths [OF assms(1) t2' d0 dl] by blast
  ultimately show "serves (states g) (key_of am) ds v" using d0 by (simp add: serves_def)
qed

lemma process_runtime_device_trie:
  assumes "process_runtime_device self 0 v = Inr (g, c)"
    and "trie (states self)" and "0 < length (states self)"
  shows "trie (states g) \<and> grows (states self) (states g) \<and>
     (\<exists>st. serves (states g) (RuntimeDeviceAddress, NoneV) st v) \<and>
     map (key_of \<circ> t_matcher) (transition (states g ! 0)) =
       map (key_of \<circ> t_matcher) (transition (states self ! 0)) @ [(RuntimeDeviceAddress, NoneV)]"
proof -
  obtain self1 ds where ns: "new_state self ''DEVICE'' 1 = (self1, ds)"
    by (cases "new_state self ''DEVICE'' 1")
  let ?am = "\<lparr>cls = RuntimeDeviceAddress, mvalue = NoneV,
    malias = Some (name (states self1 ! ds)), mpos = None\<rparr>"
  from assms(1) ns have
    pc: "process_commands (State_add self1 0 \<lparr>t_matcher = ?am, t_next = ds, set_crc = False\<rparr>)
       ?am ds v = Inr (g, c)"
    by (simp add: process_runtime_device_def Let_def)
  have k: "key_of ?am = (RuntimeDeviceAddress, NoneV)" by (simp add: key_of_def)
  from device_commands [OF pc ns assms(2,3)] k show ?thesis by auto
qed

lemma Matcher_init_key:
  "Matcher_init k [AInt d] al = Inr am \<Longrightarrow> key_of am = (k, IntV d)"
  by (auto simp: key_of_def split: sum.splits if_splits)

lemma process_fixed_device_trie:
  assumes "process_fixed_device self 0 key v = Inr (g, c)"
    and "trie (states self)" and "0 < length (states self)"
  shows "\<exists>tx d. addr_search key = Some tx \<and> py_int0 tx = Inr d \<and>
     trie (states g) \<and> grows (states self) (states g) \<and>
     (\<exists>st. serves (states g) (u8, IntV d) st v) \<and>
     map (key_of \<circ> t_matcher) (transition (states g ! 0)) =
       map (key_of \<circ> t_matcher) (transition (states self ! 0)) @ [(u8, IntV d)]"
proof -
  from assms(1) obtain tx where tx: "addr_search key = Some tx"
    by (auto simp: process_fixed_device_def split: option.splits)
  from assms(1) tx obtain d where d: "py_int0 tx = Inr d"
    by (auto simp: process_fixed_device_def split: sum.splits)
  obtain self1 ds where ns:
    "new_state (self\<lparr>device_address := Some d\<rparr>) (''DEVICE_'' @ str_int d) 1 = (self1, ds)"
    by (cases "new_state (self\<lparr>device_address := Some d\<rparr>) (''DEVICE_'' @ str_int d) 1")
  from assms(1) tx d ns obtain am where
    mi: "Matcher_init u8 [AInt d] (Some (name (states self1 ! ds))) = Inr am" and
    pc: "process_commands (State_add self1 0 \<lparr>t_matcher = am, t_next = ds, set_crc = False\<rparr>)
       am ds v = Inr (g, c)"
    by (auto simp: process_fixed_device_def Let_def split: if_splits sum.splits
        simp del: Matcher_init.simps)
  from assms(2,3) have t: "trie (states (self\<lparr>device_address := Some d\<rparr>))"
    and l: "0 < length (states (self\<lparr>device_address := Some d\<rparr>))" by simp_all
  from device_commands [OF pc ns t l] Matcher_init_key [OF mi] tx d show ?thesis by auto
qed

lemma serves_prefix:
  assumes "trie ss" and "serves ss ak st cmds"
    and "c1 \<in> set cmds" and "c2 \<in> set cmds"
    and "k \<le> length (leading c1)" and "k \<le> length (leading c2)"
    and "list_all2 matcher_eq (take k (leading c1)) (take k (leading c2))"
  shows "\<exists>q. paths ss st (take k (leading c1)) = [q] \<and>
             paths ss st (take k (leading c2)) = [q] \<and> length q = k"
proof -
  from assms(2) have st: "0 < st" "st < length ss"
    and p: "\<forall>cmd\<in>set cmds. \<exists>q. paths ss st (leading cmd) = [q]"
    by (simp_all add: serves_def)
  from p assms(3) obtain q where q: "paths ss st (leading c1) = [q]" by blast
  then have "paths ss st (take k (leading c1) @ drop k (leading c1)) = [q]" by simp
  from paths_prefix [OF assms(1) st this] assms(5)
  have p1: "paths ss st (take k (leading c1)) = [take k q]" by (simp add: min_def)
  from paths_cong [OF assms(7)] p1
  have p2: "paths ss st (take k (leading c2)) = [take k q]" by simp
  from q have "q \<in> set (paths ss st (leading c1))" by simp
  from paths_length [OF this] assms(5) have "length (take k q) = k" by simp
  with p1 p2 show ?thesis by blast
qed

lemma startswith_device: "startswith key ''device@'' \<Longrightarrow> key \<noteq> ''device''"
  by (auto simp: startswith_def)

lemma process_devices_loop_serves:
  "process_devices_loop self 0 store keys = Inr (g, c) \<Longrightarrow>
   trie (states self) \<Longrightarrow> 0 < length (states self) \<Longrightarrow>
   trie (states g) \<and> grows (states self) (states g) \<and>
   map (key_of \<circ> t_matcher) (transition (states g ! 0)) =
     map (key_of \<circ> t_matcher) (transition (states self ! 0)) @
     List.map_filter device_address_of (map fst keys) \<and>
   (\<forall>key d ak. (key, d) \<in> set keys \<and> device_address_of key = Some ak
        \<longrightarrow> (\<exists>st. serves (states g) ak st (store d)))"
proof (induction keys arbitrary: self store)
  case Nil
  then show ?case by (simp add: List.map_filter_simps)
next
  case (Cons e keys)
  obtain key d where e: "e = (key, d)" by (cases e)
  from Cons.prems(1) obtain self1 v1 self2 v2 where
    1: "(if key = ''device'' then process_runtime_device self 0 (store d)
         else Inr (self, store d)) = Inr (self1, v1)" and
    2: "(if startswith key ''device@'' then process_fixed_device self1 0 key v1
         else Inr (self1, v1)) = Inr (self2, v2)" and
    3: "process_devices_loop self2 0 (store(d := v2)) keys = Inr (g, c)"
    unfolding e by (rule process_devices_loop_step)
  have head: "trie (states self2) \<and> grows (states self) (states self2) \<and>
      map (key_of \<circ> t_matcher) (transition (states self2 ! 0)) =
        map (key_of \<circ> t_matcher) (transition (states self ! 0)) @
        (case device_address_of key of None \<Rightarrow> [] | Some ak \<Rightarrow> [ak]) \<and>
      (\<forall>ak. device_address_of key = Some ak \<longrightarrow> (\<exists>st. serves (states self2) ak st (store d))) \<and>
      erase_positions v2 = erase_positions (store d)"
  proof (cases "key = ''device''")
    case True
    then have ns: "\<not> startswith key ''device@''" by (auto dest: startswith_device)
    from True 1 have r: "process_runtime_device self 0 (store d) = Inr (self1, v1)" by simp
    from ns 2 have eq: "self2 = self1" "v2 = v1" by simp_all
    from process_runtime_device_erase [of self 0 "store d"] r
    have "erase_positions v1 = erase_positions (store d)" by simp
    with process_runtime_device_trie [OF r Cons.prems(2,3)] True eq show ?thesis
      by (simp add: device_address_of_def)
  next
    case nd: False
    with 1 have eq1: "self1 = self" "v1 = store d" by simp_all
    show ?thesis
    proof (cases "startswith key ''device@''")
      case True
      with 2 eq1 have r: "process_fixed_device self 0 key (store d) = Inr (self2, v2)" by simp
      from process_fixed_device_erase [of self 0 key "store d"] r
      have er: "erase_positions v2 = erase_positions (store d)" by simp
      from process_fixed_device_trie [OF r Cons.prems(2,3)] obtain tx a where
        "addr_search key = Some tx" "py_int0 tx = Inr a"
        "trie (states self2)" "grows (states self) (states self2)"
        "\<exists>st. serves (states self2) (u8, IntV a) st (store d)"
        "map (key_of \<circ> t_matcher) (transition (states self2 ! 0)) =
           map (key_of \<circ> t_matcher) (transition (states self ! 0)) @ [(u8, IntV a)]"
        by blast
      with nd True er show ?thesis by (simp add: device_address_of_def)
    next
      case False
      with 2 eq1 have "self2 = self" "v2 = store d" by simp_all
      with nd False Cons.prems(2) show ?thesis by (simp add: device_address_of_def)
    qed
  qed
  then have t2: "trie (states self2)" and g2: "grows (states self) (states self2)"
    and k2: "map (key_of \<circ> t_matcher) (transition (states self2 ! 0)) =
        map (key_of \<circ> t_matcher) (transition (states self ! 0)) @
        (case device_address_of key of None \<Rightarrow> [] | Some ak \<Rightarrow> [ak])"
    and sv2: "\<forall>ak. device_address_of key = Some ak \<longrightarrow>
        (\<exists>st. serves (states self2) ak st (store d))"
    and er2: "erase_positions v2 = erase_positions (store d)"
    by simp_all
  from g2 Cons.prems(3) have l2: "0 < length (states self2)" unfolding grows_def by linarith
  from Cons.IH [OF 3 t2 l2] have tg: "trie (states g)" and gg: "grows (states self2) (states g)"
    and kg: "map (key_of \<circ> t_matcher) (transition (states g ! 0)) =
        map (key_of \<circ> t_matcher) (transition (states self2 ! 0)) @
        List.map_filter device_address_of (map fst keys)"
    and rest: "\<forall>key' d' ak. (key', d') \<in> set keys \<and> device_address_of key' = Some ak
        \<longrightarrow> (\<exists>st. serves (states g) ak st ((store(d := v2)) d'))"
    by blast+
  from g2 gg have "grows (states self) (states g)" by (rule grows_trans)
  moreover from kg k2 have "map (key_of \<circ> t_matcher) (transition (states g ! 0)) =
      map (key_of \<circ> t_matcher) (transition (states self ! 0)) @
      List.map_filter device_address_of (map fst (e # keys))"
    unfolding e by (simp add: List.map_filter_simps split: option.splits)
  moreover have "\<exists>st. serves (states g) ak st (store d')"
    if m: "(key', d') \<in> set (e # keys)" and a: "device_address_of key' = Some ak"
    for key' d' ak
  proof (cases "(key', d') \<in> set keys")
    case True
    with rest a obtain st where sv: "serves (states g) ak st ((store(d := v2)) d')" by blast
    show ?thesis
    proof (cases "d' = d")
      case True
      with sv have "serves (states g) ak st v2" by simp
      from serves_erase [OF this er2] True show ?thesis by blast
    next
      case False
      with sv show ?thesis by auto
    qed
  next
    case False
    with m e have "key' = key" "d' = d" by simp_all
    with sv2 a obtain st where "serves (states self2) ak st (store d)" by blast
    from serves_grows [OF this t2 tg gg] \<open>d' = d\<close> show ?thesis by blast
  qed
  ultimately show ?case using tg by blast
qed

lemma inject_identification_states:
  "inject_identification self keys store = Inr (g, e3) \<Longrightarrow> states g = states self"
  by (auto simp: inject_identification_def Let_def split: sum.splits)

lemma inject_identification_subset:
  assumes "inject_identification self keys store = Inr (g, store3)"
  shows "set (store d) \<subseteq> set (store3 d)"
proof -
  from inject_identification_store [of self keys store] assms
  obtain n where "store3 = (\<lambda>device. store device @
      (if identification_device keys = Inr device then take n identification_commands
       else []))"
    by auto
  then show ?thesis by simp
qed

lemma filter_map_filter:
  "length (filter (\<lambda>x. x = ak) (List.map_filter f ks)) =
     length (filter (\<lambda>k. f k = Some ak) ks)"
  by (induction ks) (auto simp: List.map_filter_simps split: option.splits)

text \<open>
  C3, as amended.  Prefix sharing holds for the commands of one device key.  When the
  constructor returns, take two commands of the list of a device key of the tree whose
  leading matchers agree structurally (class and value, as \<open>Matcher.__eq__\<close> compares them)
  on their first \<open>k\<close> matchers.  The initial state has a transition with the address
  matcher of the key to a device state from which these \<open>k\<close> matchers have exactly one
  state path, the same for both commands, of \<open>k\<close> states.  When the key is the only one of
  the tree with its device address, the address matcher followed by these \<open>k\<close> matchers
  has exactly one state path from the initial state.  The two rounds of the insertion,
  descending into the next state of a structurally equal transition and allocating a new
  state otherwise, are the lemmas \<open>loop_descend\<close> and \<open>loop_insert\<close>, \<open>loop_terminal\<close>.
\<close>

theorem prefix_sharing:
  assumes "CodeGenerator_init tr = Inr (g, tr')"
    and "(key, device) \<in> set (tree_keys tr)"
    and "device_address_of key = Some ak"
    and "c1 \<in> set (tree_store tr device)" and "c2 \<in> set (tree_store tr device)"
    and "k \<le> length (leading c1)" and "k \<le> length (leading c2)"
    and "list_all2 matcher_eq (take k (leading c1)) (take k (leading c2))"
  shows "\<exists>st q. 0 < st \<and>
     (\<exists>t\<in>set (transition (states g ! 0)). key_of (t_matcher t) = ak \<and> t_next t = st) \<and>
     paths (states g) st (take k (leading c1)) = [q] \<and>
     paths (states g) st (take k (leading c2)) = [q] \<and> length q = k \<and>
     (length (filter (\<lambda>key'. device_address_of key' = Some ak) (map fst (tree_keys tr))) = 1 \<longrightarrow>
        (\<forall>a. key_of a = ak \<longrightarrow>
           paths (states g) 0 (a # take k (leading c1)) = [st # q] \<and>
           paths (states g) 0 (a # take k (leading c2)) = [st # q]))"
proof -
  from assms(1) obtain callback_list cbs self0 self1 store1 store2 where
    cfg: "configure tr cbs = Inr self0"
    and inj: "(if mode self0 = ''slave'' \<and> dict_has (identification self0) PRODUCT_CODE
      then inject_identification self0 (tree_keys tr) (tree_store tr)
      else Inr (self0, tree_store tr)) = Inr (self1, store1)"
    and dev: "process_devices self1 (tree_keys tr) store1 = Inr (g, store2)"
    by (rule init_stages)
  from configure_fields [OF cfg] have "states self0 = []" by simp
  with inj have e1: "states self1 = []"
    by (auto split: if_splits dest: inject_identification_states)
  from inj have sub: "set (tree_store tr device) \<subseteq> set (store1 device)"
    by (auto split: if_splits dest: inject_identification_subset)
  obtain self2 cur where ns: "new_state self1 ''DEVICE_ADDRESS'' 0 = (self2, cur)"
    by (cases "new_state self1 ''DEVICE_ADDRESS'' 0")
  with e1 have cur: "cur = 0" and s2: "length (states self2) = 1"
    and tr2: "transition (states self2 ! 0) = []"
    by (auto simp: new_state_def Let_def)
  from s2 tr2 have t2: "trie (states self2)"
    by (auto simp: trie_def forward_edges_def distinct_siblings_def)
  from dev ns cur have "process_devices_loop self2 0 store1 (tree_keys tr) = Inr (g, store2)"
    by (simp add: process_devices_def)
  moreover from s2 have "0 < length (states self2)" by simp
  ultimately have tg: "trie (states g)"
    and kg: "map (key_of \<circ> t_matcher) (transition (states g ! 0)) =
        map (key_of \<circ> t_matcher) (transition (states self2 ! 0)) @
        List.map_filter device_address_of (map fst (tree_keys tr))"
    and al: "\<forall>key d ak. (key, d) \<in> set (tree_keys tr) \<and> device_address_of key = Some ak
        \<longrightarrow> (\<exists>st. serves (states g) ak st (store1 d))"
    using process_devices_loop_serves [OF _ t2] by blast+
  from al assms(2,3) obtain st where sv: "serves (states g) ak st (store1 device)" by blast
  from sub assms(4,5) have "c1 \<in> set (store1 device)" "c2 \<in> set (store1 device)" by auto
  from serves_prefix [OF tg sv this assms(6,7,8)] obtain q where
    p1: "paths (states g) st (take k (leading c1)) = [q]" and
    p2: "paths (states g) st (take k (leading c2)) = [q]" and lq: "length q = k"
    by blast
  from sv have st0: "0 < st"
    and tt: "\<exists>t\<in>set (transition (states g ! 0)). key_of (t_matcher t) = ak \<and> t_next t = st"
    by (simp_all add: serves_def)
  have "paths (states g) 0 (a # take k (leading c1)) = [st # q] \<and>
        paths (states g) 0 (a # take k (leading c2)) = [st # q]"
    if u: "length (filter (\<lambda>key'. device_address_of key' = Some ak)
             (map fst (tree_keys tr))) = 1"
      and a: "key_of a = ak" for a
  proof -
    let ?ts = "transition (states g ! 0)"
    let ?f = "filter (\<lambda>t. matcher_eq (t_matcher t) a) ?ts"
    have "length ?f = length (filter (\<lambda>x. x = ak) (map (key_of \<circ> t_matcher) ?ts))"
      by (simp add: filter_map o_def matcher_eq_key a)
    also have "\<dots> = 1" unfolding kg tr2 using u by (simp add: filter_map_filter)
    finally have one: "length ?f = 1" .
    from tt obtain t where t: "t \<in> set ?ts" "key_of (t_matcher t) = ak" "t_next t = st"
      by blast
    with a have "t \<in> set ?f" by (simp add: matcher_eq_key)
    with one have f: "?f = [t]" by (cases ?f) auto
    from paths_single [OF f] t(3) p1 p2 show ?thesis by simp
  qed
  with st0 tt p1 p2 lq show ?thesis by blast
qed

theorem prefix_sharing_witness:
  "\<not> isl (CodeGenerator_init prefix_tree) \<and>
   (\<exists>st q. 0 < st \<and>
      (\<exists>t\<in>set (transition (states (fst (projr (CodeGenerator_init prefix_tree))) ! 0)).
         key_of (t_matcher t) = (u8, IntV 1) \<and> t_next t = st) \<and>
      paths (states (fst (projr (CodeGenerator_init prefix_tree)))) st
        (take 2 (leading prefix_command_a)) = [q] \<and>
      paths (states (fst (projr (CodeGenerator_init prefix_tree)))) st
        (take 2 (leading prefix_command_b)) = [q] \<and>
      length q = 2 \<and>
      paths (states (fst (projr (CodeGenerator_init prefix_tree)))) 0
        (mk u8 (IntV 1) # take 2 (leading prefix_command_a)) = [st # q] \<and>
      paths (states (fst (projr (CodeGenerator_init prefix_tree)))) 0
        (mk u8 (IntV 1) # take 2 (leading prefix_command_b)) = [st # q])"
proof -
  have ok: "\<not> isl (CodeGenerator_init prefix_tree)"
    by code_simp
  then have eq: "CodeGenerator_init prefix_tree =
      Inr (fst (projr (CodeGenerator_init prefix_tree)),
           snd (projr (CodeGenerator_init prefix_tree)))"
    by (cases "CodeGenerator_init prefix_tree") simp_all
  have mem: "(''device@1'', 0) \<in> set (tree_keys prefix_tree)"
    by code_simp
  have key: "device_address_of ''device@1'' = Some (u8, IntV 1)"
    by code_simp
  have a: "prefix_command_a \<in> set (tree_store prefix_tree 0)"
    and b: "prefix_command_b \<in> set (tree_store prefix_tree 0)"
    by (simp_all add: prefix_tree_def with_entries_def)
  have la: "2 \<le> length (leading prefix_command_a)"
    and lb: "2 \<le> length (leading prefix_command_b)"
    by code_simp+
  have agree: "list_all2 matcher_eq (take 2 (leading prefix_command_a))
      (take 2 (leading prefix_command_b))"
    by code_simp
  have only: "length (filter (\<lambda>key'. device_address_of key' = Some (u8, IntV 1))
      (map fst (tree_keys prefix_tree))) = 1"
    by code_simp
  have k: "key_of (mk u8 (IntV 1)) = (u8, IntV 1)"
    by (simp add: key_of_def mk_def)
  from prefix_sharing [OF eq mem key a b la lb agree] ok only k show ?thesis by blast
qed

text \<open>
  C3 as stated fails.  The two commands of a tree with the keys \<open>device@1\<close> and
  \<open>device@0x1\<close> agree on their leading matcher \<open>u8(5)\<close>, and the automaton has two state
  paths for it, one from each of the two device states; the initial state has two
  transitions with the matcher \<open>u8(1)\<close>, so that the address followed by \<open>u8(5)\<close> has two
  state paths from the initial state.
\<close>

theorem prefix_sharing_counterexample:
  "\<not> isl (CodeGenerator_init same_address_tree) \<and>
   map snd (tree_entries same_address_tree) =
     [[[M (mk u8 (IntV 5)), S ''on_a'']], [[M (mk u8 (IntV 5)), S ''on_a'']]] \<and>
   map (\<lambda>t. (key_of (t_matcher t), t_next t))
     (transition (states (fst (projr (CodeGenerator_init same_address_tree))) ! 0)) =
     [((u8, IntV 1), 1), ((u8, IntV 1), 4)] \<and>
   paths (states (fst (projr (CodeGenerator_init same_address_tree)))) 1 [mk u8 (IntV 5)] =
     [[2]] \<and>
   paths (states (fst (projr (CodeGenerator_init same_address_tree)))) 4 [mk u8 (IntV 5)] =
     [[5]] \<and>
   paths (states (fst (projr (CodeGenerator_init same_address_tree)))) 0
     [mk u8 (IntV 1), mk u8 (IntV 5)] = [[1, 2], [4, 5]]"
  by code_simp

section \<open>Overlapping matchers\<close>

text \<open>
  A matcher that \<open>State.has\<close> does not find among the transitions of the current state is
  added to them, and the rest of the command builds a chain of new states.
\<close>

lemma terminal_accepts:
  assumes "st < length (states self)" and "\<not> State_has (states self ! st) m"
    and "cb = ''NOTHING'' \<or> map_of (callbacks self) cb \<noteq> None"
  shows "\<exists>g c. process_sequence_loop self a st p seen [M m, S cb] = Inr (g, c) \<and>
     transition (states g ! st) = transition (states self ! st) @
       [\<lparr>t_matcher = m\<lparr>mpos := Some (p + msize m)\<rparr>, t_next = length (states self),
         set_crc = True\<rparr>] \<and>
     (\<forall>i<st. states g ! i = states self ! i)"
proof -
  let ?m = "m\<lparr>mpos := Some (p + msize m)\<rparr>"
  obtain self2 crc where ast: "add_state_transition self st
      (State_next (states self ! st) (Some (''_'' @ upper cb @ ''__CRC''))) ?m True = (self2, crc)"
    by (cases "add_state_transition self st
      (State_next (states self ! st) (Some (''_'' @ upper cb @ ''__CRC''))) ?m True")
  from add_state_transition_frame [OF ast] have "callbacks self2 = callbacks self"
    by (rule frame_fields [THEN conjunct2, THEN conjunct2, THEN conjunct2, THEN conjunct1])
  with assms(3) have "\<exists>x. make_operation self2 cb a (seen @ [M ?m, S cb]) = Inr x"
    by (auto simp: make_operation_def)
  then obtain x where mo: "make_operation self2 cb a (seen @ [M ?m, S cb]) = Inr x" ..
  let ?g = "add_operation_state self2 crc cb x"
  from assms(2) ast mo
  have l: "process_sequence_loop self a st p seen [M m, S cb] = Inr (?g, seen @ [M ?m, S cb])"
    by (simp add: loop_terminal)
  from terminal_result [OF assms(1) ast refl, of cb x] obtain new ops ss1 where
    ss1: "ss1 = (states self)[st := (states self ! st)\<lparr>transition :=
              transition (states self ! st) @
              [\<lparr>t_matcher = ?m, t_next = length (states self), set_crc = True\<rparr>]\<rparr>] @ [new]"
    and sg: "states ?g = ss1[length (states self) := (ss1 ! length (states self))\<lparr>transition :=
              transition (ss1 ! length (states self)) @
              [\<lparr>t_matcher = crc_matcher, t_next = length ss1, set_crc = False\<rparr>]\<rparr>] @ [ops]"
    by blast
  from assms(1) have "transition (states ?g ! st) = transition (states self ! st) @
       [\<lparr>t_matcher = ?m, t_next = length (states self), set_crc = True\<rparr>]"
    unfolding sg ss1 by (simp add: nth_append nth_list_update)
  moreover from assms(1) have "\<forall>i<st. states ?g ! i = states self ! i"
    unfolding sg ss1 by (simp add: nth_append nth_list_update)
  ultimately show ?thesis using l by blast
qed

lemma insert_accepts:
  assumes "st < length (states self)" and "\<not> State_has (states self ! st) m"
  shows "\<exists>self2. process_sequence_loop self a st p seen (M m # M m2 # rest) =
       process_sequence_loop self2 a (length (states self)) (p + msize m)
         (seen @ [M (m\<lparr>mpos := Some (p + msize m)\<rparr>)]) (M m2 # rest) \<and>
     length (states self2) = Suc (length (states self)) \<and>
     transition (states self2 ! length (states self)) = [] \<and>
     callbacks self2 = callbacks self \<and>
     transition (states self2 ! st) = transition (states self ! st) @
       [\<lparr>t_matcher = m\<lparr>mpos := Some (p + msize m)\<rparr>, t_next = length (states self),
         set_crc = False\<rparr>] \<and>
     (\<forall>i<st. states self2 ! i = states self ! i)"
proof -
  obtain self2 nxt where ast: "add_state_transition self st
      (State_next (states self ! st) (malias m)) (m\<lparr>mpos := Some (p + msize m)\<rparr>) False =
      (self2, nxt)"
    by (cases "add_state_transition self st
      (State_next (states self ! st) (malias m)) (m\<lparr>mpos := Some (p + msize m)\<rparr>) False")
  from ast have s2: "self2 = self\<lparr>states := (states self)[st := (states self ! st)\<lparr>transition :=
              transition (states self ! st) @
              [\<lparr>t_matcher = m\<lparr>mpos := Some (p + msize m)\<rparr>, t_next = length (states self),
                set_crc = False\<rparr>]\<rparr>] @
            [\<lparr>name = unique_name self (State_next (states self ! st) (malias m)),
              transition = [],
              pos = pos (states self ! st) + msize (m\<lparr>mpos := Some (p + msize m)\<rparr>),
              smode = mode self, op = None\<rparr>]\<rparr>"
    and nxt: "nxt = length (states self)"
    unfolding add_state_transition_states [OF assms(1)] by auto
  from assms(2) ast nxt
  have "process_sequence_loop self a st p seen (M m # M m2 # rest) =
       process_sequence_loop self2 a (length (states self)) (p + msize m)
         (seen @ [M (m\<lparr>mpos := Some (p + msize m)\<rparr>)]) (M m2 # rest)"
    by (simp add: loop_insert)
  moreover from assms(1) have "length (states self2) = Suc (length (states self))"
    unfolding s2 by simp
  moreover from assms(1) have "transition (states self2 ! length (states self)) = []"
    unfolding s2 by (simp add: nth_append)
  moreover have "callbacks self2 = callbacks self" unfolding s2 by simp
  moreover from assms(1) have "transition (states self2 ! st) = transition (states self ! st) @
       [\<lparr>t_matcher = m\<lparr>mpos := Some (p + msize m)\<rparr>, t_next = length (states self),
         set_crc = False\<rparr>]"
    unfolding s2 by (simp add: nth_append)
  moreover from assms(1) have "\<forall>i<st. states self2 ! i = states self ! i"
    unfolding s2 by (simp add: nth_append)
  ultimately show ?thesis by blast
qed

lemma loop_fresh:
  "ms \<noteq> [] \<Longrightarrow> st < length (states self) \<Longrightarrow> transition (states self ! st) = [] \<Longrightarrow>
   cb = ''NOTHING'' \<or> map_of (callbacks self) cb \<noteq> None \<Longrightarrow>
   \<exists>g c. process_sequence_loop self a st p seen (map M ms @ [S cb]) = Inr (g, c) \<and>
     (\<forall>i<st. states g ! i = states self ! i)"
proof (induction ms arbitrary: self st p seen)
  case Nil
  then show ?case by simp
next
  case (Cons m ms)
  note prems = Cons.prems and IH = Cons.IH
  from prems(3) have nh: "\<not> State_has (states self ! st) m"
    by (simp add: State_has_def)
  show ?case
  proof (cases ms)
    case Nil
    from terminal_accepts [OF prems(2) nh prems(4), of a p seen] Nil
    show ?thesis by auto
  next
    case (Cons m2 r)
    from insert_accepts [OF prems(2) nh, of a p seen m2 "map M r @ [S cb]"]
    obtain self2 where
      eq: "process_sequence_loop self a st p seen (M m # M m2 # map M r @ [S cb]) =
       process_sequence_loop self2 a (length (states self)) (p + msize m)
         (seen @ [M (m\<lparr>mpos := Some (p + msize m)\<rparr>)]) (M m2 # map M r @ [S cb])"
      and l2: "length (states self2) = Suc (length (states self))"
      and e2: "transition (states self2 ! length (states self)) = []"
      and c2: "callbacks self2 = callbacks self"
      and u2: "\<forall>i<st. states self2 ! i = states self ! i"
      by blast
    have ne: "ms \<noteq> []" using Cons by simp
    have lt: "length (states self) < length (states self2)" using l2 by simp
    from prems(4) c2 have cb2: "cb = ''NOTHING'' \<or> map_of (callbacks self2) cb \<noteq> None"
      by simp
    from IH [OF ne lt e2 cb2, of "p + msize m" "seen @ [M (m\<lparr>mpos := Some (p + msize m)\<rparr>)]"]
    obtain g c where
      r: "process_sequence_loop self2 a (length (states self)) (p + msize m)
            (seen @ [M (m\<lparr>mpos := Some (p + msize m)\<rparr>)]) (map M ms @ [S cb]) = Inr (g, c)"
      and u: "\<forall>i<length (states self). states g ! i = states self2 ! i"
      by blast
    from eq r Cons have "process_sequence_loop self a st p seen (map M (m # ms) @ [S cb]) = Inr (g, c)"
      by simp
    moreover from u u2 prems(2) have "\<forall>i<st. states g ! i = states self ! i" by simp
    ultimately show ?thesis by blast
  qed
qed

text \<open>
  C1, amended.  \<open>process_sequence\<close> has no check of overlapping matchers and no error for
  them.  For a state of the automaton, a declared callback and a command that starts with
  a matcher: when the state has no transition with a structurally equal matcher, the
  command is accepted and the matcher becomes one more transition of the state, to a
  newly allocated state, whatever the matchers of the other transitions accept; when the
  state has a transition with a structurally equal matcher, the insertion goes on from
  the next state of that transition and adds no transition to the state.
\<close>

theorem no_conflict_detection:
  assumes "st < length (states self)" and "dict_has (callbacks self) cb"
  shows "(\<not> State_has (states self ! st) m \<longrightarrow>
       (\<exists>g c. process_sequence self a st (M m # map M ms @ [S cb]) = Inr (g, c) \<and>
          transition (states g ! st) = transition (states self ! st) @
            [\<lparr>t_matcher = m\<lparr>mpos := Some (1 + msize m)\<rparr>, t_next = length (states self),
              set_crc = (ms = [])\<rparr>])) \<and>
     (State_has (states self ! st) m \<longrightarrow>
       (\<exists>nxt. State_get_next_state_of (states self ! st) m = Inr nxt \<and>
          process_sequence self a st (M m # map M ms @ [S cb]) =
            process_sequence_loop self a nxt (1 + msize m)
              [M (m\<lparr>mpos := Some (1 + msize m)\<rparr>)] (map M ms @ [S cb])))"
proof (intro conjI impI)
  from assms(2) have cb: "cb = ''NOTHING'' \<or> map_of (callbacks self) cb \<noteq> None"
    by (simp add: dict_has_def map_of_eq_None_iff)
  from assms(2) have ps: "process_sequence self a st (M m # map M ms @ [S cb]) =
      process_sequence_loop self a st 1 [] (M m # map M ms @ [S cb])"
    by (simp add: process_sequence_def)
  {
    assume nh: "\<not> State_has (states self ! st) m"
    show "\<exists>g c. process_sequence self a st (M m # map M ms @ [S cb]) = Inr (g, c) \<and>
          transition (states g ! st) = transition (states self ! st) @
            [\<lparr>t_matcher = m\<lparr>mpos := Some (1 + msize m)\<rparr>, t_next = length (states self),
              set_crc = (ms = [])\<rparr>]"
    proof (cases ms)
      case Nil
      from terminal_accepts [OF assms(1) nh cb, of a 1 "[]"] Nil ps show ?thesis by auto
    next
      case (Cons m2 r)
      from insert_accepts [OF assms(1) nh, of a 1 "[]" m2 "map M r @ [S cb]"]
      obtain self2 where
        eq: "process_sequence_loop self a st 1 [] (M m # M m2 # map M r @ [S cb]) =
         process_sequence_loop self2 a (length (states self)) (1 + msize m)
           ([] @ [M (m\<lparr>mpos := Some (1 + msize m)\<rparr>)]) (M m2 # map M r @ [S cb])"
        and l2: "length (states self2) = Suc (length (states self))"
        and e2: "transition (states self2 ! length (states self)) = []"
        and c2: "callbacks self2 = callbacks self"
        and t2: "transition (states self2 ! st) = transition (states self ! st) @
           [\<lparr>t_matcher = m\<lparr>mpos := Some (1 + msize m)\<rparr>, t_next = length (states self),
             set_crc = False\<rparr>]"
        by blast
      have ne: "ms \<noteq> []" using Cons by simp
      have lt: "length (states self) < length (states self2)" using l2 by simp
      from cb c2 have cb2: "cb = ''NOTHING'' \<or> map_of (callbacks self2) cb \<noteq> None" by simp
      from loop_fresh [OF ne lt e2 cb2, of a "1 + msize m"
          "[] @ [M (m\<lparr>mpos := Some (1 + msize m)\<rparr>)]"]
      obtain g c where
        r: "process_sequence_loop self2 a (length (states self)) (1 + msize m)
              ([] @ [M (m\<lparr>mpos := Some (1 + msize m)\<rparr>)]) (map M ms @ [S cb]) = Inr (g, c)"
        and u: "\<forall>i<length (states self). states g ! i = states self2 ! i"
        by blast
      from eq r Cons ps have "process_sequence self a st (M m # map M ms @ [S cb]) = Inr (g, c)"
        by simp
      moreover from u assms(1) t2 Cons have "transition (states g ! st) =
          transition (states self ! st) @
            [\<lparr>t_matcher = m\<lparr>mpos := Some (1 + msize m)\<rparr>, t_next = length (states self),
              set_crc = (ms = [])\<rparr>]" by simp
      ultimately show ?thesis by blast
    qed
  }
  {
    assume h: "State_has (states self ! st) m"
    then obtain nxt where "State_get_next_state_of (states self ! st) m = Inr nxt"
      by (auto simp: State_has_def State_get_next_state_of_def)
    with h ps show "\<exists>nxt. State_get_next_state_of (states self ! st) m = Inr nxt \<and>
          process_sequence self a st (M m # map M ms @ [S cb]) =
            process_sequence_loop self a nxt (1 + msize m)
              [M (m\<lparr>mpos := Some (1 + msize m)\<rparr>)] (map M ms @ [S cb])"
      by (simp add: loop_descend)
  }
qed

theorem no_conflict_detection_witness:
  "1 < length (states (fst (projr (CodeGenerator_init overlap_tree)))) \<and>
   dict_has (callbacks (fst (projr (CodeGenerator_init overlap_tree)))) ''on_b'' \<and>
   \<not> State_has (states (fst (projr (CodeGenerator_init overlap_tree))) ! 1)
       (mk u8 (Range 0 10)) \<and>
   (\<exists>g c. process_sequence (fst (projr (CodeGenerator_init overlap_tree))) (mk u8 (IntV 1)) 1
        [M (mk u8 (Range 0 10)), S ''on_b''] = Inr (g, c) \<and>
      transition (states g ! 1) =
        transition (states (fst (projr (CodeGenerator_init overlap_tree))) ! 1) @
          [\<lparr>t_matcher = (mk u8 (Range 0 10))\<lparr>mpos := Some (1 + msize (mk u8 (Range 0 10)))\<rparr>,
            t_next = length (states (fst (projr (CodeGenerator_init overlap_tree)))),
            set_crc = True\<rparr>]) \<and>
   State_has (states (fst (projr (CodeGenerator_init overlap_tree))) ! 1) (mk u8 (IntV 5)) \<and>
   (\<exists>nxt. State_get_next_state_of (states (fst (projr (CodeGenerator_init overlap_tree))) ! 1)
        (mk u8 (IntV 5)) = Inr nxt \<and>
      process_sequence (fst (projr (CodeGenerator_init overlap_tree))) (mk u8 (IntV 1)) 1
        [M (mk u8 (IntV 5)), S ''on_b''] =
      process_sequence_loop (fst (projr (CodeGenerator_init overlap_tree))) (mk u8 (IntV 1)) nxt
        (1 + msize (mk u8 (IntV 5)))
        [M ((mk u8 (IntV 5))\<lparr>mpos := Some (1 + msize (mk u8 (IntV 5)))\<rparr>)] [S ''on_b''])"
proof -
  have l: "1 < length (states (fst (projr (CodeGenerator_init overlap_tree))))"
    by code_simp
  have d: "dict_has (callbacks (fst (projr (CodeGenerator_init overlap_tree)))) ''on_b''"
    by code_simp
  have nh: "\<not> State_has (states (fst (projr (CodeGenerator_init overlap_tree))) ! 1)
       (mk u8 (Range 0 10))"
    by code_simp
  have h: "State_has (states (fst (projr (CodeGenerator_init overlap_tree))) ! 1) (mk u8 (IntV 5))"
    by code_simp
  from no_conflict_detection [OF l d, of "mk u8 (Range 0 10)" "mk u8 (IntV 1)" "[]"]
    no_conflict_detection [OF l d, of "mk u8 (IntV 5)" "mk u8 (IntV 1)" "[]"] l d nh h
  show ?thesis by simp
qed

text \<open>
  C1 as stated fails.  The two commands of a device that start with \<open>u8(5)\<close> and with
  \<open>u8([5, 6])\<close> are both accepted: the constructor returns, and the device state has the two
  matchers as sibling transitions to the different states 2 and 4.
\<close>

theorem no_conflict_detection_counterexample:
  "\<not> isl (CodeGenerator_init overlap_tree) \<and>
   map (\<lambda>t. (cls (t_matcher t), mvalue (t_matcher t), t_next t))
     (transition (states (fst (projr (CodeGenerator_init overlap_tree))) ! 1)) =
     [(u8, IntV 5, 2), (u8, ListV [5, 6], 4)]"
  by code_simp

end
